theory Spec2Isabelle
  imports Main "HOL-Library.Word"
begin

section \<open>Data model\<close>

text \<open>
  A C pointer is either \<open>NULL\<close> or points to an object. The heap is not modelled:
  a pointer carries the object it points to, and a function that writes through a
  pointer returns the object's new state.
\<close>

datatype 'a pointer = NULL | Pointer 'a

text \<open>
  How a call ends. \<open>Return\<close> is a normal return. \<open>Precondition_failed\<close> is the
  return taken by \<open>g_return_if_fail\<close> and \<open>g_return_val_if_fail\<close>: the contract
  check reports the violation and the function returns the given value. \<open>Fault\<close> is
  undefined behaviour of the C program: a dereference of \<open>NULL\<close> that no check
  guards, an out-of-bounds array read, a division by zero, a signed overflow, or the
  use of a freed object.
\<close>

datatype 'a outcome = Return 'a | Precondition_failed 'a | Fault

text \<open>
  \<open>struct _PolKitHashNode\<close>: the \<open>next\<close> link is the tail of the list that holds
  the node, so a bucket chain is a list of nodes.
\<close>

record 'a PolKitHashNode =
  key :: "'a pointer"
  value' :: "'a pointer"

text \<open>
  The calls a function makes to code outside the hash table, in the order it makes
  them: a \<open>PolKitFreeFunc\<close> callback applied to a key or a value, an allocation
  request together with its result (\<open>True\<close> when the allocator returned memory), and
  the release of a node, of the bucket array and of the table.
\<close>

datatype ('f, 'a) call =
    Invoke 'f "'a pointer"
  | P_new0_hash bool
  | P_new0_top_nodes bool
  | P_new0_node bool
  | P_free_node "'a PolKitHashNode"
  | P_free_top_nodes
  | P_free_hash

text \<open>
  \<open>struct _PolKitHash\<close>. The two \<open>int\<close> fields are C integers; where the code
  would overflow them the model faults. \<open>top_nodes\<close> is \<open>NULL\<close> until the bucket
  array has been allocated. The hash and equality callbacks are pure functions of
  their arguments; the destructor callbacks are identified by a name of type \<open>'f\<close>
  and may be \<open>NULL\<close>.
\<close>

record ('f, 'a) PolKitHash =
  refcount :: int
  num_top_nodes :: int
  top_nodes :: "'a PolKitHashNode list list pointer"
  hash_func :: "'a pointer \<Rightarrow> 32 word"
  key_equal_func :: "'a pointer \<Rightarrow> 'a pointer \<Rightarrow> bool"
  key_destroy_func :: "'f pointer"
  value_destroy_func :: "'f pointer"

definition INT_MAX :: int where
  "INT_MAX = 2147483647"

definition INT_MIN :: int where
  "INT_MIN = - 2147483648"

section \<open>polkit-hash.c\<close>

text \<open>\<open>if (f != NULL) f (p);\<close>\<close>

definition call_free_func :: "'f pointer \<Rightarrow> 'a pointer \<Rightarrow> ('f, 'a) call list" where
  "call_free_func f p = (case f of NULL \<Rightarrow> [] | Pointer g \<Rightarrow> [Invoke g p])"

text \<open>
  The inner loop of \<open>polkit_hash_unref\<close>: for each node of a chain, the key
  destructor, the value destructor, then \<open>p_free (node)\<close>.
\<close>

fun unref_chain ::
  "'f pointer \<Rightarrow> 'f pointer \<Rightarrow> 'a PolKitHashNode list \<Rightarrow> ('f, 'a) call list" where
  "unref_chain kd vd [] = []"
| "unref_chain kd vd (node # next) =
     call_free_func kd (key node) @ call_free_func vd (value' node) @ [P_free_node node]
     @ unref_chain kd vd next"

text \<open>The outer loop of \<open>polkit_hash_unref\<close>, over the buckets \<open>0 .. num_top_nodes - 1\<close>.\<close>

fun unref_buckets ::
  "'f pointer \<Rightarrow> 'f pointer \<Rightarrow> 'a PolKitHashNode list list \<Rightarrow> ('f, 'a) call list" where
  "unref_buckets kd vd [] = []"
| "unref_buckets kd vd (chain # rest) = unref_chain kd vd chain @ unref_buckets kd vd rest"

text \<open>
  \<open>polkit_hash_ref\<close>: returns the handle it was given. The increment of an \<open>int\<close>
  holding \<open>INT_MAX\<close> is a signed overflow.
\<close>

definition polkit_hash_ref ::
  "('f, 'a) PolKitHash pointer \<Rightarrow> ('f, 'a) PolKitHash pointer outcome" where
  "polkit_hash_ref hash =
     (case hash of
        NULL \<Rightarrow> Precondition_failed NULL
      | Pointer h \<Rightarrow>
          if refcount h = INT_MAX then Fault
          else Return (Pointer (h\<lparr>refcount := refcount h + 1\<rparr>)))"

text \<open>
  \<open>polkit_hash_unref\<close>: returns nothing; the model returns what became of the table
  (\<open>Some\<close> of its new state while references remain, \<open>None\<close> once it is freed) and
  the calls made.
\<close>

definition polkit_hash_unref ::
  "('f, 'a) PolKitHash pointer \<Rightarrow>
     (('f, 'a) PolKitHash option \<times> ('f, 'a) call list) outcome" where
  "polkit_hash_unref hash =
     (case hash of
        NULL \<Rightarrow> Precondition_failed (None, [])
      | Pointer h0 \<Rightarrow>
          if refcount h0 = INT_MIN then Fault
          else
            let h = h0\<lparr>refcount := refcount h0 - 1\<rparr> in
            if refcount h > 0 then Return (Some h, [])
            else
              (case top_nodes h of
                 NULL \<Rightarrow> Return (None, [P_free_top_nodes, P_free_hash])
               | Pointer tn \<Rightarrow>
                   if int (length tn) < num_top_nodes h then Fault
                   else
                     Return (None,
                       unref_buckets (key_destroy_func h) (value_destroy_func h)
                         (take (nat (num_top_nodes h)) tn)
                       @ [P_free_top_nodes, P_free_hash])))"

text \<open>
  \<open>polkit_hash_new\<close>. The two booleans are the results of the two \<open>p_new0\<close> calls
  (for the table and for the bucket array), should they be made. On the error path a
  table that was allocated is released through \<open>polkit_hash_unref\<close>.
\<close>

definition polkit_hash_new ::
  "('a pointer \<Rightarrow> 32 word) pointer \<Rightarrow> ('a pointer \<Rightarrow> 'a pointer \<Rightarrow> bool) pointer \<Rightarrow>
   'f pointer \<Rightarrow> 'f pointer \<Rightarrow> bool \<Rightarrow> bool \<Rightarrow>
     (('f, 'a) PolKitHash pointer \<times> ('f, 'a) call list) outcome" where
  "polkit_hash_new hash_func' key_equal_func' key_destroy_func' value_destroy_func'
       mem_hash mem_top_nodes =
     (case hash_func' of
        NULL \<Rightarrow> Precondition_failed (NULL, [])
      | Pointer hf \<Rightarrow>
     (case key_equal_func' of
        NULL \<Rightarrow> Precondition_failed (NULL, [])
      | Pointer eq \<Rightarrow>
          if \<not> mem_hash then Return (NULL, [P_new0_hash False])
          else
            let h = \<lparr>refcount = 1, num_top_nodes = 11,
                     top_nodes = (if mem_top_nodes then Pointer (replicate 11 []) else NULL),
                     hash_func = hf, key_equal_func = eq,
                     key_destroy_func = key_destroy_func',
                     value_destroy_func = value_destroy_func'\<rparr>
            in
            if mem_top_nodes
            then Return (Pointer h, [P_new0_hash True, P_new0_top_nodes True])
            else
              (case polkit_hash_unref (Pointer h) of
                 Return (_, cs) \<Rightarrow>
                   Return (NULL, [P_new0_hash True, P_new0_top_nodes False] @ cs)
               | Precondition_failed (_, cs) \<Rightarrow>
                   Return (NULL, [P_new0_hash True, P_new0_top_nodes False] @ cs)
               | Fault \<Rightarrow> Fault)))"

text \<open>
  \<open>bucket = hash->hash_func (key) % hash->num_top_nodes\<close>: the operands are a
  \<open>polkit_uint32_t\<close> and an \<open>int\<close>, so the \<open>int\<close> is converted to unsigned and the
  remainder is unsigned. \<open>bucket\<close> itself is an \<open>int\<close>: a remainder above
  \<open>INT_MAX\<close> would index the bucket array out of its bounds, as a remainder
  beyond its length does.
\<close>

definition bucket_of :: "('f, 'a) PolKitHash \<Rightarrow> 'a pointer \<Rightarrow> nat" where
  "bucket_of h k = unat (hash_func h k mod word_of_int (num_top_nodes h))"

text \<open>
  The \<open>while\<close> loop of \<open>polkit_hash_insert\<close> and the code after it, on the chain
  of one bucket. A node whose key equals the new key has its old key and value
  destroyed and is overwritten. When the loop runs off the end of the chain,
  \<open>nodep\<close> addresses the \<open>next\<close> field of the last node (or the bucket head), and a
  node is allocated and stored there; \<open>mem\<close> is the result of that \<open>p_new0\<close>.
  Returns \<open>ret\<close>, the chain and the calls made.
\<close>

fun insert_chain ::
  "('a pointer \<Rightarrow> 'a pointer \<Rightarrow> bool) \<Rightarrow> 'f pointer \<Rightarrow> 'f pointer \<Rightarrow>
   'a pointer \<Rightarrow> 'a pointer \<Rightarrow> bool \<Rightarrow> 'a PolKitHashNode list \<Rightarrow>
     bool \<times> 'a PolKitHashNode list \<times> ('f, 'a) call list" where
  "insert_chain eq kd vd k v mem [] =
     (if mem then (True, [\<lparr>key = k, value' = v\<rparr>], [P_new0_node True])
      else (False, [], [P_new0_node False]))"
| "insert_chain eq kd vd k v mem (node # next) =
     (if eq k (key node)
      then (True, node\<lparr>key := k, value' := v\<rparr> # next,
            call_free_func kd (key node) @ call_free_func vd (value' node))
      else
        (case insert_chain eq kd vd k v mem next of
           (ret, next', cs) \<Rightarrow> (ret, node # next', cs)))"

text \<open>
  \<open>polkit_hash_insert\<close>. The function reads \<open>hash->hash_func\<close> first, without a
  check of \<open>hash\<close>. Returns \<open>ret\<close>, the table and the calls made.
\<close>

definition polkit_hash_insert ::
  "('f, 'a) PolKitHash pointer \<Rightarrow> 'a pointer \<Rightarrow> 'a pointer \<Rightarrow> bool \<Rightarrow>
     (bool \<times> ('f, 'a) PolKitHash \<times> ('f, 'a) call list) outcome" where
  "polkit_hash_insert hash k v mem =
     (case hash of
        NULL \<Rightarrow> Fault
      | Pointer h \<Rightarrow>
          if word_of_int (num_top_nodes h) = (0 :: 32 word) then Fault
          else
            let bucket = bucket_of h k in
            (case top_nodes h of
               NULL \<Rightarrow> Fault
             | Pointer tn \<Rightarrow>
                 if length tn \<le> bucket \<or> INT_MAX < int bucket then Fault
                 else
                   (case insert_chain (key_equal_func h) (key_destroy_func h)
                           (value_destroy_func h) k v mem (tn ! bucket) of
                      (ret, chain, cs) \<Rightarrow>
                        Return (ret, h\<lparr>top_nodes := Pointer (tn[bucket := chain])\<rparr>, cs))))"

text \<open>
  The \<open>while\<close> loop of \<open>polkit_hash_lookup\<close> and the code after it: the value and
  the flag that would be stored in \<open>*found\<close>.
\<close>

fun lookup_chain ::
  "('a pointer \<Rightarrow> 'a pointer \<Rightarrow> bool) \<Rightarrow> 'a pointer \<Rightarrow> 'a PolKitHashNode list \<Rightarrow>
     'a pointer \<times> bool" where
  "lookup_chain eq k [] = (NULL, False)"
| "lookup_chain eq k (node # next) =
     (if eq k (key node) then (value' node, True) else lookup_chain eq k next)"

text \<open>
  \<open>polkit_hash_lookup\<close>. \<open>found\<close> is a pointer to a \<open>polkit_bool_t\<close> of the
  caller, or \<open>NULL\<close>; the model returns the value and the caller's flag after the
  call.
\<close>

definition polkit_hash_lookup ::
  "('f, 'a) PolKitHash pointer \<Rightarrow> 'a pointer \<Rightarrow> bool pointer \<Rightarrow>
     ('a pointer \<times> bool pointer) outcome" where
  "polkit_hash_lookup hash k found =
     (case hash of
        NULL \<Rightarrow> Fault
      | Pointer h \<Rightarrow>
          if word_of_int (num_top_nodes h) = (0 :: 32 word) then Fault
          else
            let bucket = bucket_of h k in
            (case top_nodes h of
               NULL \<Rightarrow> Fault
             | Pointer tn \<Rightarrow>
                 if length tn \<le> bucket \<or> INT_MAX < int bucket then Fault
                 else
                   (case lookup_chain (key_equal_func h) k (tn ! bucket) of
                      (v, f) \<Rightarrow>
                        Return (v, case found of NULL \<Rightarrow> NULL | Pointer _ \<Rightarrow> Pointer f))))"

section \<open>Sequences of calls\<close>

text \<open>
  A sequence of \<open>polkit_hash_insert\<close> calls on one table; each call comes with the
  result of its allocation request. \<open>None\<close> as soon as a call does not return
  \<open>TRUE\<close>.
\<close>

fun inserts ::
  "('f, 'a) PolKitHash \<Rightarrow> ('a pointer \<times> 'a pointer \<times> bool) list \<Rightarrow>
     ('f, 'a) PolKitHash option" where
  "inserts h [] = Some h"
| "inserts h ((k, v, mem) # rest) =
     (case polkit_hash_insert (Pointer h) k v mem of
        Return (True, h', cs) \<Rightarrow> inserts h' rest
      | _ \<Rightarrow> None)"

text \<open>\<open>n\<close> calls of \<open>polkit_hash_ref\<close> on one handle.\<close>

fun refs :: "nat \<Rightarrow> ('f, 'a) PolKitHash pointer \<Rightarrow> ('f, 'a) PolKitHash pointer outcome" where
  "refs 0 hash = Return hash"
| "refs (Suc n) hash =
     (case polkit_hash_ref hash of
        Return hash' \<Rightarrow> refs n hash'
      | Precondition_failed hash' \<Rightarrow> Precondition_failed hash'
      | Fault \<Rightarrow> Fault)"

text \<open>
  \<open>n\<close> calls of \<open>polkit_hash_unref\<close> on one table, with all the calls they make. A
  call on a table that an earlier call has freed is a use after free.
\<close>

fun unrefs ::
  "nat \<Rightarrow> ('f, 'a) PolKitHash \<Rightarrow>
     (('f, 'a) PolKitHash option \<times> ('f, 'a) call list) outcome" where
  "unrefs 0 h = Return (Some h, [])"
| "unrefs (Suc n) h =
     (case polkit_hash_unref (Pointer h) of
        Return (Some h', cs) \<Rightarrow>
          (case unrefs n h' of
             Return (r, cs') \<Rightarrow> Return (r, cs @ cs')
           | Precondition_failed (r, cs') \<Rightarrow> Precondition_failed (r, cs @ cs')
           | Fault \<Rightarrow> Fault)
      | Return (None, cs) \<Rightarrow> (if n = 0 then Return (None, cs) else Fault)
      | Precondition_failed x \<Rightarrow> Precondition_failed x
      | Fault \<Rightarrow> Fault)"

section \<open>Properties of tables and callbacks\<close>

text \<open>
  A table as \<open>polkit_hash_new\<close> makes it and \<open>polkit_hash_insert\<close> keeps it: a
  positive bucket count and a bucket array of that many chains.
\<close>

definition hash_valid :: "('f, 'a) PolKitHash \<Rightarrow> bool" where
  "hash_valid h =
     (0 < num_top_nodes h \<and> num_top_nodes h \<le> INT_MAX \<and>
      (case top_nodes h of
         NULL \<Rightarrow> False
       | Pointer tn \<Rightarrow> int (length tn) = num_top_nodes h))"

text \<open>The bucket array of a table (empty when it was never allocated).\<close>

definition buckets :: "('f, 'a) PolKitHash \<Rightarrow> 'a PolKitHashNode list list" where
  "buckets h = (case top_nodes h of NULL \<Rightarrow> [] | Pointer tn \<Rightarrow> tn)"

text \<open>
  The keys of a sequence are pairwise distinct under an equality callback: the
  callback holds of two keys of the sequence exactly when they are the same entry, so
  each key equals itself and no other.
\<close>

definition distinct_under :: "('k \<Rightarrow> 'k \<Rightarrow> bool) \<Rightarrow> 'k list \<Rightarrow> bool" where
  "distinct_under eq ks =
     (\<forall>i < length ks. \<forall>j < length ks. eq (ks ! i) (ks ! j) = (i = j))"

text \<open>
  The contract between the two callbacks of a table: the equality callback is
  symmetric and transitive, and keys it holds equal have the same hash value.
\<close>

definition callbacks_agree :: "('k \<Rightarrow> 32 word) \<Rightarrow> ('k \<Rightarrow> 'k \<Rightarrow> bool) \<Rightarrow> bool" where
  "callbacks_agree hf eq =
     ((\<forall>a b. eq a b \<longrightarrow> eq b a) \<and>
      (\<forall>a b c. eq a b \<longrightarrow> eq b c \<longrightarrow> eq a c) \<and>
      (\<forall>a b. eq a b \<longrightarrow> hf a = hf b))"

text \<open>An allocation request.\<close>

fun is_allocation :: "('f, 'a) call \<Rightarrow> bool" where
  "is_allocation (P_new0_hash _) = True"
| "is_allocation (P_new0_top_nodes _) = True"
| "is_allocation (P_new0_node _) = True"
| "is_allocation _ = False"

text \<open>
  What the release of one node consists of: the key destructor on its key if one is
  set, then the value destructor on its value if one is set, then the node is freed.
\<close>

definition node_calls :: "'f pointer \<Rightarrow> 'f pointer \<Rightarrow> 'a PolKitHashNode \<Rightarrow> ('f, 'a) call list" where
  "node_calls kd vd node =
     (case kd of NULL \<Rightarrow> [] | Pointer kf \<Rightarrow> [Invoke kf (key node)]) @
     (case vd of NULL \<Rightarrow> [] | Pointer vf \<Rightarrow> [Invoke vf (value' node)]) @
     [P_free_node node]"

text \<open>The first node in the key's bucket whose key the equality callback accepts.\<close>

definition found_node :: "('f, 'a) PolKitHash \<Rightarrow> 'a pointer \<Rightarrow> 'a PolKitHashNode option" where
  "found_node h k = find (\<lambda>n. key_equal_func h k (key n)) (buckets h ! bucket_of h k)"

text \<open>Every node lies in the bucket that the hash of its key selects.\<close>

definition table_inv :: "('f, 'a) PolKitHash \<Rightarrow> bool" where
  "table_inv h =
     (hash_valid h \<and>
      (\<forall>b < length (buckets h). \<forall>n \<in> set (buckets h ! b). bucket_of h (key n) = b))"

text \<open>No two nodes of one chain hold keys that the equality callback accepts as equal.\<close>

definition table_nodup :: "('f, 'a) PolKitHash \<Rightarrow> bool" where
  "table_nodup h =
     (\<forall>b < length (buckets h).
        sorted_wrt (\<lambda>a b. \<not> key_equal_func h (key a) (key b) \<and> \<not> key_equal_func h (key b) (key a))
          (buckets h ! b))"

section \<open>libpolkit-action.c\<close>

text \<open>
  A \<open>char *\<close> that is not \<open>NULL\<close> points to a string in memory: the address of its
  first byte, and the bytes before the terminating NUL. The string at address \<open>a\<close>
  with \<open>n\<close> bytes occupies the addresses \<open>a\<close> to \<open>a + n\<close>.
\<close>

type_synonym cstring = "nat \<times> string"

definition in_block :: "nat \<Rightarrow> cstring \<Rightarrow> bool" where
  "in_block p blk = (fst blk \<le> p \<and> p \<le> fst blk + length (snd blk))"

text \<open>\<open>struct PolKitAction\<close>.\<close>

record PolKitAction =
  action_refcount :: int
  action_id :: "cstring pointer"

datatype action_call = G_free cstring

text \<open>
  glib's \<open>g_strdup\<close>: \<open>NULL\<close> for \<open>NULL\<close>; otherwise it reads the string and
  returns a copy of it in newly allocated memory, whose address \<open>copy\<close> the allocator
  chooses. \<open>freed\<close> lists the strings that have been freed before the call: to
  read a string that begins inside one of them is a use of freed memory.
\<close>

definition g_strdup :: "cstring list \<Rightarrow> cstring pointer \<Rightarrow> nat \<Rightarrow> cstring pointer outcome" where
  "g_strdup freed str copy =
     (case str of
        NULL \<Rightarrow> Return NULL
      | Pointer (p, s) \<Rightarrow>
          if list_ex (in_block p) freed then Fault else Return (Pointer (copy, s)))"

definition libpolkit_action_new :: PolKitAction where
  "libpolkit_action_new = \<lparr>action_refcount = 1, action_id = NULL\<rparr>"

text \<open>
  \<open>libpolkit_action_set_action_id\<close>: the stored identifier, if there is one, is
  freed first, and the argument is copied after that. Returns the action and the
  calls made.
\<close>

definition libpolkit_action_set_action_id ::
  "PolKitAction pointer \<Rightarrow> cstring pointer \<Rightarrow> nat \<Rightarrow>
     (PolKitAction pointer \<times> action_call list) outcome" where
  "libpolkit_action_set_action_id action action_id' copy =
     (case action of
        NULL \<Rightarrow> Precondition_failed (NULL, [])
      | Pointer a \<Rightarrow>
          let freed = (case action_id a of NULL \<Rightarrow> [] | Pointer old \<Rightarrow> [old]) in
          (case g_strdup freed action_id' copy of
             Return new \<Rightarrow> Return (Pointer (a\<lparr>action_id := new\<rparr>), map G_free freed)
           | _ \<Rightarrow> Fault))"

text \<open>
  \<open>libpolkit_action_get_action_id\<close>: \<open>out_action_id\<close> is a pointer to a
  \<open>char *\<close> of the caller, or \<open>NULL\<close>; the model returns the result and the
  caller's \<open>char *\<close> after the call. The caller is given the stored pointer itself,
  not a copy.
\<close>

definition libpolkit_action_get_action_id ::
  "PolKitAction pointer \<Rightarrow> cstring pointer pointer \<Rightarrow>
     (bool \<times> cstring pointer pointer) outcome" where
  "libpolkit_action_get_action_id action out_action_id =
     (case action of
        NULL \<Rightarrow> Precondition_failed (False, out_action_id)
      | Pointer a \<Rightarrow>
     (case out_action_id of
        NULL \<Rightarrow> Precondition_failed (False, NULL)
      | Pointer _ \<Rightarrow>
     (case action_id a of
        NULL \<Rightarrow> Return (False, out_action_id)
      | Pointer s \<Rightarrow> Return (True, Pointer (Pointer s)))))"

section \<open>A concrete table\<close>

text \<open>
  \<open>p_direct_hash\<close> and \<open>p_direct_equal\<close> hand over to glib's \<open>g_direct_hash\<close>
  and \<open>g_direct_equal\<close>: the pointer converted to an unsigned 32-bit integer, and
  equality of addresses. Addresses are natural numbers here.
\<close>

definition p_direct_hash :: "nat pointer \<Rightarrow> 32 word" where
  "p_direct_hash k = (case k of NULL \<Rightarrow> 0 | Pointer a \<Rightarrow> word_of_nat a)"

definition p_direct_equal :: "nat pointer \<Rightarrow> nat pointer \<Rightarrow> bool" where
  "p_direct_equal v1 v2 = (v1 = v2)"

text \<open>
  A table of eleven buckets with destructors \<open>p_free\<close>, holding the keys 1 and 12 in
  bucket 1 and the key 3, with a \<open>NULL\<close> value, in bucket 3.
\<close>

definition direct_table :: "(string, nat) PolKitHash" where
  "direct_table =
     \<lparr>refcount = 1, num_top_nodes = 11,
      top_nodes = Pointer
        [[],
         [\<lparr>key = Pointer 1, value' = Pointer 100\<rparr>, \<lparr>key = Pointer 12, value' = Pointer 120\<rparr>],
         [],
         [\<lparr>key = Pointer 3, value' = NULL\<rparr>],
         [], [], [], [], [], [], []],
      hash_func = p_direct_hash, key_equal_func = p_direct_equal,
      key_destroy_func = Pointer ''p_free'', value_destroy_func = Pointer ''p_free''\<rparr>"

text \<open>
  A content equality in the style of \<open>p_str_equal\<close>, over a memory in which the
  addresses 1 and 101 hold two copies of one string and every other address holds a
  string of its own.
\<close>

definition same_string :: "nat pointer \<Rightarrow> nat pointer \<Rightarrow> bool" where
  "same_string v1 v2 =
     (v1 = v2 \<or> ((v1 = Pointer 1 \<or> v1 = Pointer 101) \<and> (v2 = Pointer 1 \<or> v2 = Pointer 101)))"

text \<open>
  A three-way comparison in the style of \<open>strcmp\<close> handed over as the equality
  callback: its result is non-zero, hence true, exactly when the two keys differ.
\<close>

definition compare_as_equal :: "nat pointer \<Rightarrow> nat pointer \<Rightarrow> bool" where
  "compare_as_equal v1 v2 = (v1 \<noteq> v2)"

text \<open>The empty table of eleven buckets that \<open>polkit_hash_new\<close> returns.\<close>

definition new_table ::
  "(nat pointer \<Rightarrow> 32 word) \<Rightarrow> (nat pointer \<Rightarrow> nat pointer \<Rightarrow> bool) \<Rightarrow>
   string pointer \<Rightarrow> string pointer \<Rightarrow> (string, nat) PolKitHash" where
  "new_table hf eq kd vd =
     \<lparr>refcount = 1, num_top_nodes = 11,
      top_nodes = Pointer [[], [], [], [], [], [], [], [], [], [], []],
      hash_func = hf, key_equal_func = eq, key_destroy_func = kd, value_destroy_func = vd\<rparr>"

text \<open>The same table with one chain in bucket 1 and one in bucket 2.\<close>

definition table_with ::
  "(nat pointer \<Rightarrow> 32 word) \<Rightarrow> (nat pointer \<Rightarrow> nat pointer \<Rightarrow> bool) \<Rightarrow>
   string pointer \<Rightarrow> string pointer \<Rightarrow> nat PolKitHashNode list \<Rightarrow> nat PolKitHashNode list \<Rightarrow>
   (string, nat) PolKitHash" where
  "table_with hf eq kd vd chain1 chain2 =
     \<lparr>refcount = 1, num_top_nodes = 11,
      top_nodes = Pointer [[], chain1, chain2, [], [], [], [], [], [], [], []],
      hash_func = hf, key_equal_func = eq, key_destroy_func = kd, value_destroy_func = vd\<rparr>"

section \<open>The loops on one chain\<close>

lemma lookup_chain_find:
  "lookup_chain eq k c =
     (case find (\<lambda>n. eq k (key n)) c of None \<Rightarrow> (NULL, False) | Some n \<Rightarrow> (value' n, True))"
  by (induction c) auto

lemma insert_chain_absent:
  "\<not> snd (lookup_chain eq k c) \<Longrightarrow>
   insert_chain eq kd vd k v mem c =
     (mem, c @ (if mem then [\<lparr>key = k, value' = v\<rparr>] else []), [P_new0_node mem])"
  by (induction c) auto

lemma insert_chain_split:
  "(\<forall>m \<in> set pre. \<not> eq k (key m)) \<Longrightarrow> eq k (key node) \<Longrightarrow>
   insert_chain eq kd vd k v mem (pre @ node # post) =
     (True, pre @ \<lparr>key = k, value' = v\<rparr> # post,
      call_free_func kd (key node) @ call_free_func vd (value' node))"
  by (induction pre) auto

lemma lookup_chain_split:
  "(\<forall>m \<in> set pre. \<not> eq k (key m)) \<Longrightarrow> eq k (key node) \<Longrightarrow>
   lookup_chain eq k (pre @ node # post) = (value' node, True)"
  by (induction pre) auto

lemma lookup_chain_present:
  "snd (lookup_chain eq k c) \<Longrightarrow>
   \<exists>pre node post. c = pre @ node # post \<and> (\<forall>m \<in> set pre. \<not> eq k (key m)) \<and> eq k (key node)"
proof (induction c)
  case Nil
  then show ?case by simp
next
  case (Cons n c)
  show ?case
  proof (cases "eq k (key n)")
    case True
    then have "n # c = [] @ n # c \<and> (\<forall>m \<in> set []. \<not> eq k (key m)) \<and> eq k (key n)"
      by simp
    then show ?thesis by blast
  next
    case False
    with Cons.prems have "snd (lookup_chain eq k c)" by simp
    from Cons.IH [OF this] obtain pre node post where
      "c = pre @ node # post" "\<forall>m \<in> set pre. \<not> eq k (key m)" "eq k (key node)"
      by blast
    with False have "n # c = (n # pre) @ node # post \<and>
        (\<forall>m \<in> set (n # pre). \<not> eq k (key m)) \<and> eq k (key node)"
      by simp
    then show ?thesis by blast
  qed
qed

text \<open>The first node of a chain that satisfies a predicate is determined.\<close>

lemma first_match_unique:
  "pre @ node # post = pre' @ node' # post' \<Longrightarrow>
   \<forall>m \<in> set pre. \<not> P m \<Longrightarrow> P node \<Longrightarrow> \<forall>m \<in> set pre'. \<not> P m \<Longrightarrow> P node' \<Longrightarrow>
   pre = pre' \<and> node = node' \<and> post = post'"
proof (induction pre arbitrary: pre')
  case Nil
  then show ?case by (cases pre') auto
next
  case (Cons a pre)
  then show ?case by (cases pre') auto
qed

lemma insert_chain_False:
  "insert_chain eq kd vd k v mem c = (False, c', cs) \<Longrightarrow>
   c' = c \<and> cs = [P_new0_node False] \<and> \<not> mem \<and> \<not> snd (lookup_chain eq k c)"
  by (induction c arbitrary: c' cs) (auto split: if_splits prod.splits)

lemma insert_chain_keys:
  "insert_chain eq kd vd k v mem c = (ret, c', cs) \<Longrightarrow> m \<in> set c' \<Longrightarrow>
   key m = k \<or> m \<in> set c"
  by (induction c arbitrary: c' cs) (auto split: if_splits prod.splits)

lemma find_insert_chain_same:
  "eq k k \<Longrightarrow> insert_chain eq kd vd k v mem c = (True, c', cs) \<Longrightarrow>
   find (\<lambda>n. eq k (key n)) c' = Some \<lparr>key = k, value' = v\<rparr>"
  by (induction c arbitrary: c' cs) (auto split: if_splits prod.splits)

lemma find_insert_chain_other:
  "find (\<lambda>n. eq k (key n)) c = Some \<lparr>key = k, value' = v\<rparr> \<Longrightarrow>
   \<not> eq k' k \<Longrightarrow> \<not> eq k k' \<Longrightarrow>
   insert_chain eq kd vd k' v' mem c = (ret, c', cs) \<Longrightarrow>
   find (\<lambda>n. eq k (key n)) c' = Some \<lparr>key = k, value' = v\<rparr>"
  by (induction c arbitrary: c' cs) (auto split: if_splits prod.splits)

text \<open>
  Under a symmetric and transitive equality callback the loop keeps a chain free of
  equal keys.
\<close>

lemma insert_chain_nodup:
  assumes sym: "\<forall>a b. eq a b \<longrightarrow> eq b a"
    and trans: "\<forall>a b c. eq a b \<longrightarrow> eq b c \<longrightarrow> eq a c"
  shows "sorted_wrt (\<lambda>a b. \<not> eq (key a) (key b) \<and> \<not> eq (key b) (key a)) c \<Longrightarrow>
   insert_chain eq kd vd k v mem c = (ret, c', cs) \<Longrightarrow>
   sorted_wrt (\<lambda>a b. \<not> eq (key a) (key b) \<and> \<not> eq (key b) (key a)) c'"
proof (induction c arbitrary: c' cs)
  case Nil
  then show ?case by (auto split: if_splits)
next
  case (Cons n c)
  show ?case
  proof (cases "eq k (key n)")
    case True
    with Cons.prems(2) have c': "c' = n\<lparr>key := k, value' := v\<rparr> # c" by simp
    have "\<not> eq k (key m) \<and> \<not> eq (key m) k" if "m \<in> set c" for m
    proof -
      from Cons.prems(1) that have d: "\<not> eq (key n) (key m)" "\<not> eq (key m) (key n)" by auto
      from True sym have nk: "eq (key n) k" by blast
      from d(1) nk trans have "\<not> eq k (key m)" by blast
      moreover from d(2) True trans have "\<not> eq (key m) k" by blast
      ultimately show ?thesis by simp
    qed
    with Cons.prems(1) c' show ?thesis by simp
  next
    case False
    with Cons.prems(2) obtain c'' where ic: "insert_chain eq kd vd k v mem c = (ret, c'', cs)"
      and c': "c' = n # c''"
      by (auto split: prod.splits)
    from Cons.prems(1)
    have "sorted_wrt (\<lambda>a b. \<not> eq (key a) (key b) \<and> \<not> eq (key b) (key a)) c"
      by simp
    from Cons.IH [OF this ic]
    have s: "sorted_wrt (\<lambda>a b. \<not> eq (key a) (key b) \<and> \<not> eq (key b) (key a)) c''" .
    have "\<not> eq (key n) (key m) \<and> \<not> eq (key m) (key n)" if "m \<in> set c''" for m
    proof -
      from insert_chain_keys [OF ic that] show ?thesis
      proof
        assume "key m = k"
        with False sym show ?thesis by auto
      next
        assume "m \<in> set c"
        with Cons.prems(1) show ?thesis by auto
      qed
    qed
    with s c' show ?thesis by simp
  qed
qed

lemma unref_chain_concat:
  "unref_chain kd vd c = concat (map (node_calls kd vd) c)"
  by (induction c) (simp_all add: node_calls_def call_free_func_def)

lemma unref_buckets_concat:
  "unref_buckets kd vd tn = concat (map (node_calls kd vd) (concat tn))"
  by (induction tn) (simp_all add: unref_chain_concat)

lemma filter_alloc_call_free_func [simp]: "filter is_allocation (call_free_func f p) = []"
  by (simp add: call_free_func_def split: pointer.splits)

lemma distinct_under_Cons:
  "distinct_under eq (k # ks) =
     (eq k k \<and> (\<forall>k' \<in> set ks. \<not> eq k k' \<and> \<not> eq k' k) \<and> distinct_under eq ks)"
  by (auto simp: distinct_under_def All_less_Suc2 all_set_conv_all_nth)

lemma distinct_under_Nil: "distinct_under eq []"
  by (simp add: distinct_under_def)

section \<open>Tables\<close>

lemma unat_word_of_int_32:
  assumes "0 < n" "n \<le> INT_MAX"
  shows "unat (word_of_int n :: 32 word) = nat n"
proof -
  have "(word_of_int n :: 32 word) = word_of_nat (nat n)"
    using assms by simp
  moreover have "nat n < 2 ^ 32" using assms by (simp add: INT_MAX_def)
  ultimately show ?thesis by (simp add: unat_of_nat)
qed

text \<open>In a valid table the bucket index is inside the bucket array.\<close>

lemma bucket_of_bound:
  assumes "hash_valid h" "top_nodes h = Pointer tn"
  shows "bucket_of h k < length tn \<and> word_of_int (num_top_nodes h) \<noteq> (0 :: 32 word) \<and>
         int (bucket_of h k) \<le> INT_MAX"
proof -
  from assms have n: "0 < num_top_nodes h" "num_top_nodes h \<le> INT_MAX"
    and len: "int (length tn) = num_top_nodes h"
    by (simp_all add: hash_valid_def)
  have u: "unat (word_of_int (num_top_nodes h) :: 32 word) = nat (num_top_nodes h)"
    by (rule unat_word_of_int_32 [OF n])
  have "unat (word_of_int (num_top_nodes h) :: 32 word) \<noteq> 0" using u n by simp
  then have nz: "word_of_int (num_top_nodes h) \<noteq> (0 :: 32 word)" by (metis unat_0)
  have lt: "bucket_of h k < nat (num_top_nodes h)"
    using u n by (simp add: bucket_of_def unat_mod)
  with n have "int (bucket_of h k) \<le> INT_MAX" by linarith
  with lt len nz show ?thesis by simp
qed

lemma polkit_hash_lookup_valid:
  assumes "hash_valid h"
  shows "polkit_hash_lookup (Pointer h) k found =
     (case lookup_chain (key_equal_func h) k (buckets h ! bucket_of h k) of
        (v, f) \<Rightarrow> Return (v, case found of NULL \<Rightarrow> NULL | Pointer _ \<Rightarrow> Pointer f))"
proof -
  from assms obtain tn where tn: "top_nodes h = Pointer tn"
    by (auto simp: hash_valid_def split: pointer.splits)
  from bucket_of_bound [OF assms tn, where k = k] tn show ?thesis
    by (simp add: polkit_hash_lookup_def buckets_def Let_def)
qed

lemma polkit_hash_insert_valid:
  assumes "hash_valid h"
  shows "polkit_hash_insert (Pointer h) k v mem =
     (case insert_chain (key_equal_func h) (key_destroy_func h) (value_destroy_func h)
             k v mem (buckets h ! bucket_of h k) of
        (ret, chain, cs) \<Rightarrow>
          Return (ret, h\<lparr>top_nodes := Pointer ((buckets h)[bucket_of h k := chain])\<rparr>, cs))"
proof -
  from assms obtain tn where tn: "top_nodes h = Pointer tn"
    by (auto simp: hash_valid_def split: pointer.splits)
  from bucket_of_bound [OF assms tn, where k = k] tn show ?thesis
    by (simp add: polkit_hash_insert_def buckets_def Let_def)
qed

lemma polkit_hash_lookup_Return_iff:
  "polkit_hash_lookup (Pointer h) k found = Return (v, found') \<longleftrightarrow>
     (\<exists>tn. top_nodes h = Pointer tn \<and> bucket_of h k < length tn \<and>
        int (bucket_of h k) \<le> INT_MAX \<and>
        word_of_int (num_top_nodes h) \<noteq> (0 :: 32 word) \<and>
        v = fst (lookup_chain (key_equal_func h) k (tn ! bucket_of h k)) \<and>
        found' = (case found of NULL \<Rightarrow> NULL
                  | Pointer _ \<Rightarrow>
                      Pointer (snd (lookup_chain (key_equal_func h) k (tn ! bucket_of h k)))))"
  by (cases "top_nodes h"; cases found)
     (auto simp: polkit_hash_lookup_def Let_def split: prod.splits)

lemma polkit_hash_insert_Return_iff:
  "polkit_hash_insert (Pointer h) k v mem = Return (ret, h', cs) \<longleftrightarrow>
     (\<exists>tn c'. top_nodes h = Pointer tn \<and> bucket_of h k < length tn \<and>
        int (bucket_of h k) \<le> INT_MAX \<and>
        word_of_int (num_top_nodes h) \<noteq> (0 :: 32 word) \<and>
        insert_chain (key_equal_func h) (key_destroy_func h) (value_destroy_func h)
          k v mem (tn ! bucket_of h k) = (ret, c', cs) \<and>
        h' = h\<lparr>top_nodes := Pointer (tn[bucket_of h k := c'])\<rparr>)"
  by (cases "top_nodes h")
     (auto simp: polkit_hash_insert_def Let_def split: prod.splits)

text \<open>\<open>polkit_hash_insert\<close> writes nothing but the chain of one bucket.\<close>

lemma insert_keeps:
  assumes "polkit_hash_insert (Pointer h) k v mem = Return (ret, h', cs)"
  shows "hash_func h' = hash_func h" "key_equal_func h' = key_equal_func h"
    "num_top_nodes h' = num_top_nodes h" "key_destroy_func h' = key_destroy_func h"
    "value_destroy_func h' = value_destroy_func h" "refcount h' = refcount h"
    "bucket_of h' = bucket_of h" "hash_valid h \<Longrightarrow> hash_valid h'"
    "length (buckets h') = length (buckets h)"
  using assms
  by (auto simp: polkit_hash_insert_Return_iff bucket_of_def hash_valid_def buckets_def
      fun_eq_iff)

lemma inserts_Cons:
  assumes "inserts h ((k, v, mem) # ops) = Some h'"
  obtains h1 cs where "polkit_hash_insert (Pointer h) k v mem = Return (True, h1, cs)"
    and "inserts h1 ops = Some h'"
  using assms by (auto split: outcome.splits prod.splits bool.splits)

lemma inserts_fields:
  "inserts h ops = Some h' \<Longrightarrow>
   key_equal_func h' = key_equal_func h \<and> hash_func h' = hash_func h \<and>
   num_top_nodes h' = num_top_nodes h \<and> length (buckets h') = length (buckets h) \<and>
   refcount h' = refcount h \<and> (hash_valid h \<longrightarrow> hash_valid h')"
proof (induction ops arbitrary: h)
  case Nil
  then show ?case by simp
next
  case (Cons op ops)
  obtain k v mem where op: "op = (k, v, mem)" by (cases op) auto
  from Cons.prems have "inserts h ((k, v, mem) # ops) = Some h'" unfolding op .
  then obtain h1 cs where
    i: "polkit_hash_insert (Pointer h) k v mem = Return (True, h1, cs)"
    and r: "inserts h1 ops = Some h'"
    by (rule inserts_Cons)
  from Cons.IH [OF r] insert_keeps(1,2,3,6,8,9) [OF i] show ?case by simp
qed

text \<open>What \<open>polkit_hash_new\<close> returns when it returns a table.\<close>

lemma polkit_hash_new_Return:
  assumes "polkit_hash_new (Pointer hf) (Pointer eq) kd vd m1 m2 = Return (Pointer h, cs)"
  shows "h = \<lparr>refcount = 1, num_top_nodes = 11, top_nodes = Pointer (replicate 11 []),
               hash_func = hf, key_equal_func = eq, key_destroy_func = kd,
               value_destroy_func = vd\<rparr>"
  using assms
  by (cases m1; cases m2)
     (simp_all add: polkit_hash_new_def polkit_hash_unref_def Let_def INT_MIN_def)

lemma polkit_hash_new_inv:
  assumes "polkit_hash_new (Pointer hf) (Pointer eq) kd vd m1 m2 = Return (Pointer h, cs)"
  shows "table_inv h" "table_nodup h" "hash_func h = hf" "key_equal_func h = eq"
    "num_top_nodes h = 11" "refcount h = 1" "hash_valid h"
  unfolding polkit_hash_new_Return [OF assms]
  by (simp_all add: table_inv_def table_nodup_def hash_valid_def buckets_def INT_MAX_def)

text \<open>
  Every table that \<open>polkit_hash_new\<close> returns, and every table that successful
  insertions make of it, is valid and still holds one reference.
\<close>

lemma reachable_hash_valid:
  assumes "polkit_hash_new (Pointer hf) (Pointer eq) kd vd m1 m2 = Return (Pointer h0, cs0)"
    and "inserts h0 ops = Some h"
  shows "hash_valid h \<and> refcount h = 1"
  using inserts_fields [OF assms(2)] polkit_hash_new_inv(6,7) [OF assms(1)] by simp

lemma replicate_11: "replicate 11 x = [x, x, x, x, x, x, x, x, x, x, x]"
  by (simp add: numeral_eq_Suc)

lemma polkit_hash_new_table:
  "polkit_hash_new (Pointer hf) (Pointer eq) kd vd True True =
     Return (Pointer (new_table hf eq kd vd), [P_new0_hash True, P_new0_top_nodes True])"
  by (simp add: polkit_hash_new_def new_table_def replicate_11)

lemmas table_eval = polkit_hash_insert_def polkit_hash_lookup_def bucket_of_def
  p_direct_hash_def new_table_def table_with_def direct_table_def INT_MAX_def Let_def

section \<open>Lookup after a sequence of insertions\<close>

lemma found_node_insert_same:
  assumes "key_equal_func h k k"
    and "polkit_hash_insert (Pointer h) k v mem = Return (True, h', cs)"
  shows "found_node h' k = Some \<lparr>key = k, value' = v\<rparr>"
proof -
  from assms(2) obtain tn c' where tn: "top_nodes h = Pointer tn"
    and b: "bucket_of h k < length tn"
    and ic: "insert_chain (key_equal_func h) (key_destroy_func h) (value_destroy_func h)
          k v mem (tn ! bucket_of h k) = (True, c', cs)"
    and h': "h' = h\<lparr>top_nodes := Pointer (tn[bucket_of h k := c'])\<rparr>"
    by (auto simp: polkit_hash_insert_Return_iff)
  from find_insert_chain_same [of "key_equal_func h", OF assms(1) ic] h' b show ?thesis
    by (simp add: found_node_def buckets_def bucket_of_def)
qed

lemma found_node_insert_other:
  assumes "found_node h k = Some \<lparr>key = k, value' = v\<rparr>"
    and "\<not> key_equal_func h k' k" "\<not> key_equal_func h k k'"
    and "polkit_hash_insert (Pointer h) k' v' mem = Return (ret, h', cs)"
  shows "found_node h' k = Some \<lparr>key = k, value' = v\<rparr>"
proof -
  from assms(4) obtain tn c' where tn: "top_nodes h = Pointer tn"
    and b: "bucket_of h k' < length tn"
    and ic: "insert_chain (key_equal_func h) (key_destroy_func h) (value_destroy_func h)
          k' v' mem (tn ! bucket_of h k') = (ret, c', cs)"
    and h': "h' = h\<lparr>top_nodes := Pointer (tn[bucket_of h k' := c'])\<rparr>"
    by (auto simp: polkit_hash_insert_Return_iff)
  show ?thesis
  proof (cases "bucket_of h k = bucket_of h k'")
    case True
    with assms(1) tn have "find (\<lambda>n. key_equal_func h k (key n)) (tn ! bucket_of h k')
        = Some \<lparr>key = k, value' = v\<rparr>"
      by (simp add: found_node_def buckets_def)
    from find_insert_chain_other [of "key_equal_func h", OF this assms(2,3) ic] h' b True
    show ?thesis by (simp add: found_node_def buckets_def bucket_of_def)
  next
    case False
    with assms(1) tn h' show ?thesis
      by (simp add: found_node_def buckets_def bucket_of_def)
  qed
qed

lemma inserts_found_node_other:
  "inserts h ops = Some h' \<Longrightarrow> found_node h k = Some \<lparr>key = k, value' = v\<rparr> \<Longrightarrow>
   \<forall>k' \<in> set (map fst ops). \<not> key_equal_func h k k' \<and> \<not> key_equal_func h k' k \<Longrightarrow>
   found_node h' k = Some \<lparr>key = k, value' = v\<rparr>"
proof (induction ops arbitrary: h)
  case Nil
  then show ?case by simp
next
  case (Cons op ops)
  obtain k' v' mem where op: "op = (k', v', mem)" by (cases op) auto
  from Cons.prems(1) have "inserts h ((k', v', mem) # ops) = Some h'" unfolding op .
  then obtain h1 cs where
    i: "polkit_hash_insert (Pointer h) k' v' mem = Return (True, h1, cs)"
    and r: "inserts h1 ops = Some h'"
    by (rule inserts_Cons)
  from Cons.prems(3) op have d: "\<not> key_equal_func h k' k" "\<not> key_equal_func h k k'"
    by simp_all
  from found_node_insert_other [OF Cons.prems(2) d i]
  have f: "found_node h1 k = Some \<lparr>key = k, value' = v\<rparr>" .
  from Cons.prems(3) insert_keeps(2) [OF i]
  have "\<forall>k' \<in> set (map fst ops). \<not> key_equal_func h1 k k' \<and> \<not> key_equal_func h1 k' k"
    by simp
  from Cons.IH [OF r f this] show ?case .
qed

lemma inserts_found_node:
  "inserts h ops = Some h' \<Longrightarrow>
   distinct_under (key_equal_func h) (map fst ops) \<Longrightarrow> i < length ops \<Longrightarrow>
   found_node h' (fst (ops ! i)) = Some \<lparr>key = fst (ops ! i), value' = fst (snd (ops ! i))\<rparr>"
proof (induction ops arbitrary: h i)
  case Nil
  then show ?case by simp
next
  case (Cons op ops)
  obtain k v mem where op: "op = (k, v, mem)" by (cases op) auto
  from Cons.prems(1) have "inserts h ((k, v, mem) # ops) = Some h'" unfolding op .
  then obtain h1 cs where
    ins: "polkit_hash_insert (Pointer h) k v mem = Return (True, h1, cs)"
    and r: "inserts h1 ops = Some h'"
    by (rule inserts_Cons)
  from Cons.prems(2) op have refl: "key_equal_func h k k"
    and other: "\<forall>k' \<in> set (map fst ops). \<not> key_equal_func h k k' \<and> \<not> key_equal_func h k' k"
    and rest: "distinct_under (key_equal_func h) (map fst ops)"
    by (simp_all add: distinct_under_Cons)
  note keep = insert_keeps(2) [OF ins]
  show ?case
  proof (cases i)
    case 0
    from found_node_insert_same [OF refl ins]
    have "found_node h1 k = Some \<lparr>key = k, value' = v\<rparr>" .
    from inserts_found_node_other [OF r this] other keep
    have "found_node h' k = Some \<lparr>key = k, value' = v\<rparr>" by simp
    with 0 op show ?thesis by simp
  next
    case (Suc j)
    with Cons.prems(3) have j: "j < length ops" by simp
    from Cons.IH [OF r _ j] rest keep Suc
    show ?thesis by simp
  qed
qed

text \<open>
  C1, as stated, fails when the equality callback does not hold of a key and itself.
  The table below is made by \<open>polkit_hash_new\<close> with the callback
  \<open>compare_as_equal\<close>; the one insertion of the key 1 succeeds, and the lookup of
  that key returns \<open>NULL\<close> with the flag false.
\<close>

theorem polkit_hash_lookup_after_inserts_counterexample:
  "polkit_hash_new (Pointer p_direct_hash) (Pointer compare_as_equal) NULL NULL True True
     = Return (Pointer (new_table p_direct_hash compare_as_equal NULL NULL),
               [P_new0_hash True, P_new0_top_nodes True]) \<and>
   inserts (new_table p_direct_hash compare_as_equal NULL NULL)
       [(Pointer 1, Pointer 100, True)]
     = Some (table_with p_direct_hash compare_as_equal NULL NULL
               [\<lparr>key = Pointer 1, value' = Pointer 100\<rparr>] []) \<and>
   polkit_hash_lookup
       (Pointer (table_with p_direct_hash compare_as_equal NULL NULL
                   [\<lparr>key = Pointer 1, value' = Pointer 100\<rparr>] []))
       (Pointer 1) (Pointer True)
     = Return (NULL, Pointer False)"
  by (simp add: table_eval polkit_hash_new_table compare_as_equal_def)

text \<open>
  C1, amended. On a valid table, after a sequence of successful insertions whose keys
  are pairwise distinct under the equality callback and each equal to itself under
  it, the lookup of each inserted key returns the value inserted with it and sets the
  flag to true.
\<close>

theorem polkit_hash_lookup_after_inserts:
  assumes "hash_valid h" and "inserts h ops = Some h'"
    and "distinct_under (key_equal_func h) (map fst ops)"
    and "i < length ops" and "ops ! i = (k, v, mem)"
  shows "polkit_hash_lookup (Pointer h') k (Pointer f) = Return (v, Pointer True)"
proof -
  from inserts_found_node [OF assms(2,3,4)] assms(5)
  have "found_node h' k = Some \<lparr>key = k, value' = v\<rparr>" by simp
  moreover from inserts_fields [OF assms(2)] assms(1) have "hash_valid h'" by simp
  ultimately show ?thesis
    by (simp add: polkit_hash_lookup_valid lookup_chain_find found_node_def)
qed

theorem polkit_hash_lookup_after_inserts_witness:
  "hash_valid (new_table p_direct_hash p_direct_equal (Pointer ''p_free'') (Pointer ''p_free'')) \<and>
   distinct_under p_direct_equal [Pointer 1, Pointer (12 :: nat)] \<and>
   inserts (new_table p_direct_hash p_direct_equal (Pointer ''p_free'') (Pointer ''p_free''))
       [(Pointer 1, Pointer 100, True), (Pointer 12, Pointer 120, True)]
     = Some (table_with p_direct_hash p_direct_equal (Pointer ''p_free'') (Pointer ''p_free'')
               [\<lparr>key = Pointer 1, value' = Pointer 100\<rparr>,
                \<lparr>key = Pointer 12, value' = Pointer 120\<rparr>] []) \<and>
   polkit_hash_lookup
       (Pointer (table_with p_direct_hash p_direct_equal (Pointer ''p_free'') (Pointer ''p_free'')
                   [\<lparr>key = Pointer 1, value' = Pointer 100\<rparr>,
                    \<lparr>key = Pointer 12, value' = Pointer 120\<rparr>] []))
       (Pointer 12) (Pointer False)
     = Return (Pointer 120, Pointer True)"
proof -
  let ?h = "new_table p_direct_hash p_direct_equal (Pointer ''p_free'') (Pointer ''p_free'')"
  let ?ops = "[(Pointer 1, Pointer 100, True), (Pointer (12 :: nat), Pointer (120 :: nat), True)]"
  let ?h' = "table_with p_direct_hash p_direct_equal (Pointer ''p_free'') (Pointer ''p_free'')
               [\<lparr>key = Pointer 1, value' = Pointer 100\<rparr>,
                \<lparr>key = Pointer 12, value' = Pointer 120\<rparr>] []"
  have v: "hash_valid ?h" by (simp add: hash_valid_def new_table_def INT_MAX_def)
  have i: "inserts ?h ?ops = Some ?h'" by (simp add: table_eval p_direct_equal_def)
  have d: "distinct_under (key_equal_func ?h) (map fst ?ops)"
    by (simp add: distinct_under_Cons distinct_under_Nil new_table_def p_direct_equal_def)
  have n: "Suc 0 < length ?ops" "?ops ! Suc 0 = (Pointer 12, Pointer 120, True)" by simp_all
  from polkit_hash_lookup_after_inserts [OF v i d n, of False]
  have "polkit_hash_lookup (Pointer ?h') (Pointer 12) (Pointer False)
          = Return (Pointer 120, Pointer True)" .
  moreover from d have "distinct_under p_direct_equal [Pointer 1, Pointer (12 :: nat)]"
    by (simp add: new_table_def)
  ultimately show ?thesis using v i by simp
qed

section \<open>Allocation failure in polkit_hash_insert\<close>

text \<open>
  C2. When the key is not in the table and the allocation of the new node fails,
  \<open>polkit_hash_insert\<close> returns \<open>FALSE\<close>, the table is the one it was given, and
  the only call made is the failed allocation request: no destructor is invoked.
  Moreover every \<open>FALSE\<close> return of \<open>polkit_hash_insert\<close> is of this kind: the
  allocation failed, the table is unchanged, and no destructor was invoked.
\<close>

theorem polkit_hash_insert_oom_unchanged:
  "(polkit_hash_lookup (Pointer h) k (Pointer f) = Return (v0, Pointer False) \<longrightarrow>
      polkit_hash_insert (Pointer h) k v False = Return (False, h, [P_new0_node False])) \<and>
   (polkit_hash_insert (Pointer h) k v mem = Return (False, h', cs) \<longrightarrow>
      h' = h \<and> cs = [P_new0_node False] \<and> \<not> mem)"
proof (rule conjI; rule impI)
  assume "polkit_hash_lookup (Pointer h) k (Pointer f) = Return (v0, Pointer False)"
  then obtain tn where tn: "top_nodes h = Pointer tn" and b: "bucket_of h k < length tn"
    and nz: "word_of_int (num_top_nodes h) \<noteq> (0 :: 32 word)"
    and im: "int (bucket_of h k) \<le> INT_MAX"
    and f: "\<not> snd (lookup_chain (key_equal_func h) k (tn ! bucket_of h k))"
    by (auto simp: polkit_hash_lookup_Return_iff)
  have "insert_chain (key_equal_func h) (key_destroy_func h) (value_destroy_func h)
          k v False (tn ! bucket_of h k) = (False, tn ! bucket_of h k, [P_new0_node False])"
    using insert_chain_absent [OF f, where mem = False] by simp
  with tn b nz im
  show "polkit_hash_insert (Pointer h) k v False = Return (False, h, [P_new0_node False])"
    by (simp add: polkit_hash_insert_def Let_def)
next
  assume "polkit_hash_insert (Pointer h) k v mem = Return (False, h', cs)"
  then obtain tn c' where tn: "top_nodes h = Pointer tn"
    and ic: "insert_chain (key_equal_func h) (key_destroy_func h) (value_destroy_func h)
               k v mem (tn ! bucket_of h k) = (False, c', cs)"
    and h': "h' = h\<lparr>top_nodes := Pointer (tn[bucket_of h k := c'])\<rparr>"
    by (auto simp: polkit_hash_insert_Return_iff)
  from insert_chain_False [OF ic]
  have "c' = tn ! bucket_of h k" "cs = [P_new0_node False]" "\<not> mem"
    by simp_all
  with h' tn show "h' = h \<and> cs = [P_new0_node False] \<and> \<not> mem" by simp
qed

theorem polkit_hash_insert_oom_unchanged_witness:
  "polkit_hash_lookup (Pointer direct_table) (Pointer 23) (Pointer True)
     = Return (NULL, Pointer False) \<and>
   polkit_hash_insert (Pointer direct_table) (Pointer 23) (Pointer 230) False
     = Return (False, direct_table, [P_new0_node False])"
proof -
  have a: "polkit_hash_lookup (Pointer direct_table) (Pointer 23) (Pointer True)
             = Return (NULL, Pointer False)"
    by (simp add: table_eval p_direct_equal_def)
  from polkit_hash_insert_oom_unchanged
    [of direct_table "Pointer 23" True NULL "Pointer 230" False direct_table
        "[P_new0_node False]"]
  have b: "polkit_hash_insert (Pointer direct_table) (Pointer 23) (Pointer 230) False
             = Return (False, direct_table, [P_new0_node False])"
    using a by blast
  from a b show ?thesis by simp
qed

section \<open>Replacement in polkit_hash_insert\<close>

text \<open>
  C3. When the key is present in the table, that is when \<open>polkit_hash_lookup\<close>
  finds it, \<open>polkit_hash_insert\<close> takes the replace path whatever the allocator
  would answer: the chain of the key's bucket has a first node whose key equals the
  key, the call returns \<open>TRUE\<close>, the table it returns is the old one with the new
  key and value written into that node, the only calls made are those of the
  destructors on the old key and value, there is no allocation request among them,
  and the number of nodes in every bucket is as it was.
\<close>

theorem polkit_hash_insert_replace_succeeds:
  assumes "polkit_hash_lookup (Pointer h) k (Pointer f) = Return (v0, Pointer True)"
  shows "\<exists>pre node post.
           buckets h ! bucket_of h k = pre @ node # post \<and>
           (\<forall>m \<in> set pre. \<not> key_equal_func h k (key m)) \<and>
           key_equal_func h k (key node) \<and>
           polkit_hash_insert (Pointer h) k v mem =
             Return (True,
               h\<lparr>top_nodes :=
                   Pointer ((buckets h)[bucket_of h k := pre @ \<lparr>key = k, value' = v\<rparr> # post])\<rparr>,
               call_free_func (key_destroy_func h) (key node) @
               call_free_func (value_destroy_func h) (value' node)) \<and>
           filter is_allocation
             (call_free_func (key_destroy_func h) (key node) @
              call_free_func (value_destroy_func h) (value' node)) = [] \<and>
           map length ((buckets h)[bucket_of h k := pre @ \<lparr>key = k, value' = v\<rparr> # post])
             = map length (buckets h)"
proof -
  from assms obtain tn where tn: "top_nodes h = Pointer tn" and b: "bucket_of h k < length tn"
    and nz: "word_of_int (num_top_nodes h) \<noteq> (0 :: 32 word)"
    and im: "int (bucket_of h k) \<le> INT_MAX"
    and f: "snd (lookup_chain (key_equal_func h) k (tn ! bucket_of h k))"
    by (auto simp: polkit_hash_lookup_Return_iff)
  from lookup_chain_present [OF f] obtain pre node post where
    c: "tn ! bucket_of h k = pre @ node # post"
    and pre: "\<forall>m \<in> set pre. \<not> key_equal_func h k (key m)"
    and node: "key_equal_func h k (key node)"
    by blast
  let ?c' = "pre @ \<lparr>key = k, value' = v\<rparr> # post"
  let ?cs = "call_free_func (key_destroy_func h) (key node) @
             call_free_func (value_destroy_func h) (value' node)"
  have bs: "buckets h = tn" using tn by (simp add: buckets_def)
  have ic: "insert_chain (key_equal_func h) (key_destroy_func h) (value_destroy_func h)
              k v mem (tn ! bucket_of h k) = (True, ?c', ?cs)"
    unfolding c using pre node by (rule insert_chain_split)
  have r: "polkit_hash_insert (Pointer h) k v mem =
             Return (True, h\<lparr>top_nodes := Pointer (tn[bucket_of h k := ?c'])\<rparr>, ?cs)"
    using tn b nz im ic by (simp add: polkit_hash_insert_def Let_def)
  have a: "filter is_allocation ?cs = []" by simp
  have l: "map length (tn[bucket_of h k := ?c']) = map length tn"
    using b c by (simp add: map_update list_update_same_conv)
  from c pre node r a l have
    "buckets h ! bucket_of h k = pre @ node # post \<and>
     (\<forall>m \<in> set pre. \<not> key_equal_func h k (key m)) \<and>
     key_equal_func h k (key node) \<and>
     polkit_hash_insert (Pointer h) k v mem =
       Return (True, h\<lparr>top_nodes := Pointer ((buckets h)[bucket_of h k := ?c'])\<rparr>, ?cs) \<and>
     filter is_allocation ?cs = [] \<and>
     map length ((buckets h)[bucket_of h k := ?c']) = map length (buckets h)"
    unfolding bs by simp
  then show ?thesis by blast
qed

theorem polkit_hash_insert_replace_succeeds_witness:
  "polkit_hash_lookup (Pointer direct_table) (Pointer 12) (Pointer False)
     = Return (Pointer 120, Pointer True) \<and>
   polkit_hash_insert (Pointer direct_table) (Pointer 12) (Pointer 121) False =
     Return (True,
       direct_table\<lparr>top_nodes := Pointer
         [[],
          [\<lparr>key = Pointer 1, value' = Pointer 100\<rparr>, \<lparr>key = Pointer 12, value' = Pointer 121\<rparr>],
          [],
          [\<lparr>key = Pointer 3, value' = NULL\<rparr>],
          [], [], [], [], [], [], []]\<rparr>,
       [Invoke ''p_free'' (Pointer 12), Invoke ''p_free'' (Pointer 120)]) \<and>
   filter is_allocation [Invoke ''p_free'' (Pointer 12), Invoke ''p_free'' (Pointer (120 :: nat))]
     = []"
proof -
  let ?P = "\<lambda>m. key_equal_func direct_table (Pointer 12) (key m)"
  have a: "polkit_hash_lookup (Pointer direct_table) (Pointer 12) (Pointer False)
             = Return (Pointer 120, Pointer True)"
    by (simp add: table_eval p_direct_equal_def)
  have b: "bucket_of direct_table (Pointer 12) = 1"
    by (simp add: table_eval)
  have c: "buckets direct_table ! 1 =
             [\<lparr>key = Pointer 1, value' = Pointer 100\<rparr>]
             @ \<lparr>key = Pointer 12, value' = Pointer 120\<rparr> # []"
    by (simp add: buckets_def direct_table_def)
  have p: "\<forall>m \<in> set [\<lparr>key = Pointer 1, value' = Pointer (100 :: nat)\<rparr>]. \<not> ?P m"
    "?P \<lparr>key = Pointer 12, value' = Pointer (120 :: nat)\<rparr>"
    by (simp_all add: direct_table_def p_direct_equal_def)
  from polkit_hash_insert_replace_succeeds [OF a, of "Pointer 121" False]
  obtain pre node post where
    d: "buckets direct_table ! 1 = pre @ node # post"
    and q: "\<forall>m \<in> set pre. \<not> ?P m" "?P node"
    and r: "polkit_hash_insert (Pointer direct_table) (Pointer 12) (Pointer 121) False =
       Return (True,
         direct_table\<lparr>top_nodes :=
           Pointer ((buckets direct_table)[1 := pre @ \<lparr>key = Pointer 12, value' = Pointer 121\<rparr> # post])\<rparr>,
         call_free_func (key_destroy_func direct_table) (key node) @
         call_free_func (value_destroy_func direct_table) (value' node))"
    and n: "filter is_allocation
         (call_free_func (key_destroy_func direct_table) (key node) @
          call_free_func (value_destroy_func direct_table) (value' node)) = []"
    unfolding b by blast
  from d c have "pre @ node # post =
      [\<lparr>key = Pointer 1, value' = Pointer 100\<rparr>] @ \<lparr>key = Pointer 12, value' = Pointer 120\<rparr> # []"
    by simp
  from first_match_unique [of pre node post _ _ _ ?P, OF this q p]
  have e: "pre = [\<lparr>key = Pointer 1, value' = Pointer 100\<rparr>]"
    "node = \<lparr>key = Pointer 12, value' = Pointer 120\<rparr>" "post = []"
    by simp_all
  from r n a show ?thesis
    unfolding e by (simp add: buckets_def direct_table_def call_free_func_def)
qed

text \<open>
  C6. When the first node of the key's bucket whose key equals the new key is
  \<open>node\<close>, \<open>polkit_hash_insert\<close> returns \<open>TRUE\<close>; the calls it makes are the key
  destructor, if set, on the key that \<open>node\<close> held, then the value destructor, if
  set, on the value that \<open>node\<close> held, each once; and in the table it returns that
  node holds the new key and the new value, all else being as before.
\<close>

theorem polkit_hash_insert_replace_destroys:
  assumes "hash_valid h"
    and "buckets h ! bucket_of h k = pre @ node # post"
    and "\<forall>m \<in> set pre. \<not> key_equal_func h k (key m)"
    and "key_equal_func h k (key node)"
  shows "polkit_hash_insert (Pointer h) k v mem =
     Return (True,
       h\<lparr>top_nodes :=
           Pointer ((buckets h)[bucket_of h k := pre @ \<lparr>key = k, value' = v\<rparr> # post])\<rparr>,
       (case key_destroy_func h of NULL \<Rightarrow> [] | Pointer kf \<Rightarrow> [Invoke kf (key node)]) @
       (case value_destroy_func h of NULL \<Rightarrow> [] | Pointer vf \<Rightarrow> [Invoke vf (value' node)]))"
proof -
  have "insert_chain (key_equal_func h) (key_destroy_func h) (value_destroy_func h)
          k v mem (buckets h ! bucket_of h k) =
        (True, pre @ \<lparr>key = k, value' = v\<rparr> # post,
         call_free_func (key_destroy_func h) (key node) @
         call_free_func (value_destroy_func h) (value' node))"
    unfolding assms(2) using assms(3,4) by (rule insert_chain_split)
  then show ?thesis
    by (simp add: polkit_hash_insert_valid [OF assms(1)] call_free_func_def)
qed

theorem polkit_hash_insert_replace_destroys_witness:
  "hash_valid direct_table \<and>
   polkit_hash_insert (Pointer direct_table) (Pointer 12) (Pointer 121) True =
     Return (True,
       direct_table\<lparr>top_nodes := Pointer
         [[],
          [\<lparr>key = Pointer 1, value' = Pointer 100\<rparr>, \<lparr>key = Pointer 12, value' = Pointer 121\<rparr>],
          [],
          [\<lparr>key = Pointer 3, value' = NULL\<rparr>],
          [], [], [], [], [], [], []]\<rparr>,
       [Invoke ''p_free'' (Pointer 12), Invoke ''p_free'' (Pointer 120)])"
proof -
  have v: "hash_valid direct_table"
    by (simp add: hash_valid_def direct_table_def INT_MAX_def)
  have b: "bucket_of direct_table (Pointer 12) = 1"
    by (simp add: table_eval)
  have c: "buckets direct_table ! bucket_of direct_table (Pointer 12) =
             [\<lparr>key = Pointer 1, value' = Pointer 100\<rparr>]
             @ \<lparr>key = Pointer 12, value' = Pointer 120\<rparr> # []"
    unfolding b by (simp add: buckets_def direct_table_def)
  have p: "\<forall>m \<in> set [\<lparr>key = Pointer 1, value' = Pointer 100\<rparr>].
             \<not> key_equal_func direct_table (Pointer 12) (key m)"
    by (simp add: direct_table_def p_direct_equal_def)
  have n: "key_equal_func direct_table (Pointer 12)
             (key \<lparr>key = Pointer 12, value' = Pointer (120 :: nat)\<rparr>)"
    by (simp add: direct_table_def p_direct_equal_def)
  from polkit_hash_insert_replace_destroys [OF v c p n, of "Pointer 121" True] v
  show ?thesis
    unfolding b by (simp add: buckets_def direct_table_def)
qed

section \<open>Bucket placement and duplicate keys\<close>

lemma insert_table_inv:
  assumes "table_inv h" "polkit_hash_insert (Pointer h) k v mem = Return (ret, h', cs)"
  shows "table_inv h'"
proof -
  from assms(2) obtain tn c' where tn: "top_nodes h = Pointer tn"
    and b: "bucket_of h k < length tn"
    and ic: "insert_chain (key_equal_func h) (key_destroy_func h) (value_destroy_func h)
          k v mem (tn ! bucket_of h k) = (ret, c', cs)"
    and h': "h' = h\<lparr>top_nodes := Pointer (tn[bucket_of h k := c'])\<rparr>"
    by (auto simp: polkit_hash_insert_Return_iff)
  from assms(1) have v: "hash_valid h"
    and p: "\<forall>b < length tn. \<forall>n \<in> set (tn ! b). bucket_of h (key n) = b"
    using tn by (simp_all add: table_inv_def buckets_def)
  have bo: "bucket_of h' = bucket_of h" by (rule insert_keeps(7) [OF assms(2)])
  have "bucket_of h (key n) = b'"
    if "b' < length tn" "n \<in> set (tn[bucket_of h k := c'] ! b')" for b' n
  proof (cases "b' = bucket_of h k")
    case True
    with that b have "n \<in> set c'" by simp
    from insert_chain_keys [OF ic this] p b True show ?thesis by auto
  next
    case False
    with that p show ?thesis by simp
  qed
  with insert_keeps(8) [OF assms(2) v] bo h' show ?thesis
    by (simp add: table_inv_def buckets_def)
qed

lemma insert_table_nodup:
  assumes "\<forall>a b. key_equal_func h a b \<longrightarrow> key_equal_func h b a"
    and "\<forall>a b c. key_equal_func h a b \<longrightarrow> key_equal_func h b c \<longrightarrow> key_equal_func h a c"
    and "table_nodup h" "polkit_hash_insert (Pointer h) k v mem = Return (ret, h', cs)"
  shows "table_nodup h'"
proof -
  let ?D = "\<lambda>a b. \<not> key_equal_func h (key a) (key b) \<and> \<not> key_equal_func h (key b) (key a)"
  from assms(4) obtain tn c' where tn: "top_nodes h = Pointer tn"
    and b: "bucket_of h k < length tn"
    and ic: "insert_chain (key_equal_func h) (key_destroy_func h) (value_destroy_func h)
          k v mem (tn ! bucket_of h k) = (ret, c', cs)"
    and h': "h' = h\<lparr>top_nodes := Pointer (tn[bucket_of h k := c'])\<rparr>"
    by (auto simp: polkit_hash_insert_Return_iff)
  from assms(3) tn have p: "\<forall>b < length tn. sorted_wrt ?D (tn ! b)"
    by (simp add: table_nodup_def buckets_def)
  have "sorted_wrt ?D (tn[bucket_of h k := c'] ! b')" if "b' < length tn" for b'
  proof (cases "b' = bucket_of h k")
    case True
    from p b have "sorted_wrt ?D (tn ! bucket_of h k)" by simp
    from insert_chain_nodup [of "key_equal_func h", OF assms(1,2) this ic] True b
    show ?thesis by simp
  next
    case False
    with that p show ?thesis by simp
  qed
  with h' show ?thesis by (simp add: table_nodup_def buckets_def)
qed

lemma inserts_table_inv:
  "inserts h ops = Some h' \<Longrightarrow> table_inv h \<Longrightarrow> table_inv h'"
proof (induction ops arbitrary: h)
  case Nil
  then show ?case by simp
next
  case (Cons op ops)
  obtain k v mem where op: "op = (k, v, mem)" by (cases op) auto
  from Cons.prems(1) have "inserts h ((k, v, mem) # ops) = Some h'" unfolding op .
  then obtain h1 cs where
    i: "polkit_hash_insert (Pointer h) k v mem = Return (True, h1, cs)"
    and r: "inserts h1 ops = Some h'"
    by (rule inserts_Cons)
  from Cons.IH [OF r insert_table_inv [OF Cons.prems(2) i]] show ?case .
qed

lemma inserts_table_nodup:
  "inserts h ops = Some h' \<Longrightarrow>
   \<forall>a b. key_equal_func h a b \<longrightarrow> key_equal_func h b a \<Longrightarrow>
   \<forall>a b c. key_equal_func h a b \<longrightarrow> key_equal_func h b c \<longrightarrow> key_equal_func h a c \<Longrightarrow>
   table_nodup h \<Longrightarrow> table_nodup h'"
proof (induction ops arbitrary: h)
  case Nil
  then show ?case by simp
next
  case (Cons op ops)
  obtain k v mem where op: "op = (k, v, mem)" by (cases op) auto
  from Cons.prems(1) have "inserts h ((k, v, mem) # ops) = Some h'" unfolding op .
  then obtain h1 cs where
    i: "polkit_hash_insert (Pointer h) k v mem = Return (True, h1, cs)"
    and r: "inserts h1 ops = Some h'"
    by (rule inserts_Cons)
  note e = insert_keeps(2) [OF i]
  have sym: "\<forall>a b. key_equal_func h1 a b \<longrightarrow> key_equal_func h1 b a"
    unfolding e by (rule Cons.prems(2))
  have trans:
    "\<forall>a b c. key_equal_func h1 a b \<longrightarrow> key_equal_func h1 b c \<longrightarrow> key_equal_func h1 a c"
    unfolding e by (rule Cons.prems(3))
  show ?case
    by (rule Cons.IH [OF r sym trans insert_table_nodup [OF Cons.prems(2,3,4) i]])
qed

text \<open>
  C4, as stated, fails when the hash callback does not follow the equality
  callback. The table below is made by \<open>polkit_hash_new\<close> with the hash of the
  address and the equality of the strings. The addresses 1 and 101 hold equal
  strings; after the two insertions the table holds both keys, one in bucket 1 and
  one in bucket 2.
\<close>

theorem polkit_hash_buckets_invariant_counterexample:
  "polkit_hash_new (Pointer p_direct_hash) (Pointer same_string) NULL NULL True True
     = Return (Pointer (new_table p_direct_hash same_string NULL NULL),
               [P_new0_hash True, P_new0_top_nodes True]) \<and>
   inserts (new_table p_direct_hash same_string NULL NULL)
       [(Pointer 1, Pointer 100, True), (Pointer 101, Pointer 200, True)]
     = Some (table_with p_direct_hash same_string NULL NULL
               [\<lparr>key = Pointer 1, value' = Pointer 100\<rparr>]
               [\<lparr>key = Pointer 101, value' = Pointer 200\<rparr>]) \<and>
   buckets (table_with p_direct_hash same_string NULL NULL
               [\<lparr>key = Pointer 1, value' = Pointer 100\<rparr>]
               [\<lparr>key = Pointer 101, value' = Pointer 200\<rparr>]) ! 1
     = [\<lparr>key = Pointer 1, value' = Pointer 100\<rparr>] \<and>
   buckets (table_with p_direct_hash same_string NULL NULL
               [\<lparr>key = Pointer 1, value' = Pointer 100\<rparr>]
               [\<lparr>key = Pointer 101, value' = Pointer 200\<rparr>]) ! 2
     = [\<lparr>key = Pointer 101, value' = Pointer 200\<rparr>] \<and>
   same_string (Pointer 1) (Pointer 101)"
  by (simp add: table_eval polkit_hash_new_table same_string_def buckets_def)

text \<open>
  C4, amended. A table that \<open>polkit_hash_new\<close> returned and a sequence of
  successful insertions changed has eleven buckets, and every node of it lies in the
  bucket whose index is the hash of its key modulo the bucket count. If moreover the
  equality callback is symmetric and transitive and keys it holds equal have the
  same hash value, then no two nodes of the table, in one bucket or in two, hold
  equal keys.
\<close>

theorem polkit_hash_buckets_invariant:
  assumes "polkit_hash_new (Pointer hf) (Pointer eq) kd vd m1 m2 = Return (Pointer h0, cs0)"
    and "inserts h0 ops = Some h"
  shows "length (buckets h) = 11 \<and>
    (\<forall>b < length (buckets h). \<forall>i < length (buckets h ! b).
        unat (hf (key (buckets h ! b ! i)) mod 11) = b) \<and>
    (callbacks_agree hf eq \<longrightarrow>
       (\<forall>b < length (buckets h). \<forall>i < length (buckets h ! b).
        \<forall>b' < length (buckets h). \<forall>i' < length (buckets h ! b').
          (b, i) \<noteq> (b', i') \<longrightarrow> \<not> eq (key (buckets h ! b ! i)) (key (buckets h ! b' ! i'))))"
proof -
  note new = polkit_hash_new_inv [OF assms(1)]
  note f = inserts_fields [OF assms(2)]
  from f new have hf: "hash_func h = hf" and eq: "key_equal_func h = eq"
    and n: "num_top_nodes h = 11" by simp_all
  have bo: "bucket_of h k = unat (hf k mod 11)" for k
    by (simp add: bucket_of_def hf n)
  from inserts_table_inv [OF assms(2) new(1)] have inv: "table_inv h" .
  then have len: "length (buckets h) = 11"
    by (auto simp: table_inv_def hash_valid_def buckets_def n split: pointer.splits)
  from inv have place: "\<forall>b < length (buckets h). \<forall>i < length (buckets h ! b).
        unat (hf (key (buckets h ! b ! i)) mod 11) = b"
    by (auto simp: table_inv_def bo [symmetric])
  have nodup: "\<not> eq (key (buckets h ! b ! i)) (key (buckets h ! b' ! i'))"
    if agree: "callbacks_agree hf eq"
      and b: "b < length (buckets h)" and i: "i < length (buckets h ! b)"
      and b': "b' < length (buckets h)" and i': "i' < length (buckets h ! b')"
      and ne: "(b, i) \<noteq> (b', i')" for b i b' i'
  proof (cases "b = b'")
    case False
    from place b i have "unat (hf (key (buckets h ! b ! i)) mod 11) = b" by blast
    moreover from place b' i' have "unat (hf (key (buckets h ! b' ! i')) mod 11) = b'" by blast
    ultimately have "hf (key (buckets h ! b ! i)) \<noteq> hf (key (buckets h ! b' ! i'))"
      using False by auto
    moreover from agree have "\<forall>a b. eq a b \<longrightarrow> hf a = hf b"
      unfolding callbacks_agree_def by blast
    ultimately show ?thesis by blast
  next
    case True
    from agree have sym: "\<forall>a b. key_equal_func h0 a b \<longrightarrow> key_equal_func h0 b a"
      and trans: "\<forall>a b c. key_equal_func h0 a b \<longrightarrow> key_equal_func h0 b c
                    \<longrightarrow> key_equal_func h0 a c"
      unfolding callbacks_agree_def new(4) by blast+
    from inserts_table_nodup [OF assms(2) sym trans new(2)] have "table_nodup h" .
    with b
    have s: "sorted_wrt (\<lambda>a b. \<not> eq (key a) (key b) \<and> \<not> eq (key b) (key a)) (buckets h ! b)"
      by (simp add: table_nodup_def eq)
    from ne True have "i < i' \<or> i' < i" by auto
    then show ?thesis
    proof
      assume "i < i'"
      with s i' True show ?thesis by (auto simp: sorted_wrt_iff_nth_less)
    next
      assume "i' < i"
      with s i True show ?thesis by (auto simp: sorted_wrt_iff_nth_less)
    qed
  qed
  show ?thesis
  proof (intro conjI)
    show "length (buckets h) = 11" by (rule len)
    show "\<forall>b < length (buckets h). \<forall>i < length (buckets h ! b).
        unat (hf (key (buckets h ! b ! i)) mod 11) = b" by (rule place)
    show "callbacks_agree hf eq \<longrightarrow>
       (\<forall>b < length (buckets h). \<forall>i < length (buckets h ! b).
        \<forall>b' < length (buckets h). \<forall>i' < length (buckets h ! b').
          (b, i) \<noteq> (b', i') \<longrightarrow> \<not> eq (key (buckets h ! b ! i)) (key (buckets h ! b' ! i')))"
      by (intro impI allI, rule nodup)
  qed
qed

theorem polkit_hash_buckets_invariant_witness:
  "callbacks_agree p_direct_hash p_direct_equal \<and>
   inserts (new_table p_direct_hash p_direct_equal NULL NULL)
       [(Pointer 1, Pointer 100, True), (Pointer 12, Pointer 120, True),
        (Pointer 2, Pointer 200, True), (Pointer 1, Pointer 101, False)]
     = Some (table_with p_direct_hash p_direct_equal NULL NULL
               [\<lparr>key = Pointer 1, value' = Pointer 101\<rparr>,
                \<lparr>key = Pointer 12, value' = Pointer 120\<rparr>]
               [\<lparr>key = Pointer 2, value' = Pointer 200\<rparr>]) \<and>
   unat (p_direct_hash (Pointer 12) mod 11) = 1 \<and>
   \<not> p_direct_equal (Pointer 1) (Pointer (12 :: nat)) \<and>
   \<not> p_direct_equal (Pointer 12) (Pointer (2 :: nat))"
proof -
  let ?new = "new_table p_direct_hash p_direct_equal NULL NULL :: (string, nat) PolKitHash"
  let ?tab = "table_with p_direct_hash p_direct_equal NULL NULL
               [\<lparr>key = Pointer 1, value' = Pointer 101\<rparr>,
                \<lparr>key = Pointer 12, value' = Pointer 120\<rparr>]
               [\<lparr>key = Pointer 2, value' = Pointer 200\<rparr>] :: (string, nat) PolKitHash"
  have a: "callbacks_agree p_direct_hash p_direct_equal"
    unfolding callbacks_agree_def p_direct_equal_def by blast
  have n: "polkit_hash_new (Pointer p_direct_hash) (Pointer p_direct_equal) NULL NULL True True
             = Return (Pointer ?new, [P_new0_hash True, P_new0_top_nodes True])"
    by (rule polkit_hash_new_table)
  have i: "inserts ?new
       [(Pointer 1, Pointer 100, True), (Pointer 12, Pointer 120, True),
        (Pointer 2, Pointer 200, True), (Pointer 1, Pointer 101, False)] = Some ?tab"
    by (simp add: table_eval p_direct_equal_def)
  have b: "buckets ?tab ! 1 = [\<lparr>key = Pointer 1, value' = Pointer 101\<rparr>,
                             \<lparr>key = Pointer 12, value' = Pointer 120\<rparr>]"
    "buckets ?tab ! 2 = [\<lparr>key = Pointer 2, value' = Pointer 200\<rparr>]"
    "length (buckets ?tab) = 11"
    by (simp_all add: buckets_def table_with_def)
  note t = polkit_hash_buckets_invariant [OF n i]
  from t have pl: "\<forall>b < length (buckets ?tab). \<forall>i < length (buckets ?tab ! b).
        unat (p_direct_hash (key (buckets ?tab ! b ! i)) mod 11) = b" by blast
  have "unat (p_direct_hash (key (buckets ?tab ! 1 ! 1)) mod 11) = 1"
    using pl [rule_format, of 1 1] b by simp
  then have p: "unat (p_direct_hash (Pointer 12) mod 11) = 1"
    unfolding b(1) by simp
  from t a have d: "\<forall>b < length (buckets ?tab). \<forall>i < length (buckets ?tab ! b).
        \<forall>b' < length (buckets ?tab). \<forall>i' < length (buckets ?tab ! b').
          (b, i) \<noteq> (b', i') \<longrightarrow>
          \<not> p_direct_equal (key (buckets ?tab ! b ! i)) (key (buckets ?tab ! b' ! i'))"
    by blast
  have "\<not> p_direct_equal (key (buckets ?tab ! 1 ! 0)) (key (buckets ?tab ! 1 ! 1))"
    using d [rule_format, of 1 0 1 1] b by simp
  then have d1: "\<not> p_direct_equal (Pointer 1) (Pointer (12 :: nat))"
    unfolding b(1) by simp
  have "\<not> p_direct_equal (key (buckets ?tab ! 1 ! 1)) (key (buckets ?tab ! 2 ! 0))"
    using d [rule_format, of 1 1 2 0] b by simp
  then have d2: "\<not> p_direct_equal (Pointer 12) (Pointer (2 :: nat))"
    unfolding b(1) b(2) by simp
  from a i p d1 d2 show ?thesis by simp
qed

section \<open>Reference counting\<close>

lemma refs_Return:
  "refs n (Pointer h) = Return hash \<Longrightarrow>
   hash = Pointer (h\<lparr>refcount := refcount h + int n\<rparr>)"
proof (induction n arbitrary: h)
  case 0
  then show ?case by simp
next
  case (Suc n)
  show ?case
  proof (cases "refcount h = INT_MAX")
    case True
    with Suc.prems show ?thesis by (simp add: polkit_hash_ref_def)
  next
    case False
    with Suc.prems have "refs n (Pointer (h\<lparr>refcount := refcount h + 1\<rparr>)) = Return hash"
      by (simp add: polkit_hash_ref_def)
    from Suc.IH [OF this] show ?thesis by (simp add: add.assoc)
  qed
qed

text \<open>The acquisitions all return as long as the counter stays below \<open>INT_MAX\<close>.\<close>

lemma refs_defined:
  "refcount h + int n \<le> INT_MAX \<Longrightarrow>
   refs n (Pointer h) = Return (Pointer (h\<lparr>refcount := refcount h + int n\<rparr>))"
proof (induction n arbitrary: h)
  case 0
  then show ?case by simp
next
  case (Suc n)
  then have "refcount h \<noteq> INT_MAX" by simp
  with Suc.prems Suc.IH [of "h\<lparr>refcount := refcount h + 1\<rparr>"] show ?case
    by (simp add: polkit_hash_ref_def add.assoc)
qed

lemma polkit_hash_unref_alive:
  "1 < refcount h \<Longrightarrow>
   polkit_hash_unref (Pointer h) = Return (Some (h\<lparr>refcount := refcount h - 1\<rparr>), [])"
  by (simp add: polkit_hash_unref_def INT_MIN_def Let_def)

lemma polkit_hash_unref_last:
  assumes "refcount h = 1" "hash_valid h"
  shows "polkit_hash_unref (Pointer h) =
     Return (None, concat (map (node_calls (key_destroy_func h) (value_destroy_func h))
                             (concat (buckets h)))
                   @ [P_free_top_nodes, P_free_hash])"
proof -
  from assms(2) obtain tn where tn: "top_nodes h = Pointer tn"
    and len: "int (length tn) = num_top_nodes h"
    by (auto simp: hash_valid_def split: pointer.splits)
  from len have "take (nat (num_top_nodes h)) tn = tn" by simp
  with assms(1) tn len show ?thesis
    by (simp add: polkit_hash_unref_def INT_MIN_def Let_def buckets_def unref_buckets_concat)
qed

lemma unrefs_alive:
  "int m < refcount h \<Longrightarrow>
   unrefs m h = Return (Some (h\<lparr>refcount := refcount h - int m\<rparr>), [])"
proof (induction m arbitrary: h)
  case 0
  then show ?case by simp
next
  case (Suc m)
  then have "1 < refcount h" by simp
  from polkit_hash_unref_alive [OF this] Suc.prems
    Suc.IH [of "h\<lparr>refcount := refcount h - 1\<rparr>"]
  show ?case by (simp add: algebra_simps)
qed

lemma unrefs_last:
  assumes "refcount h = int (Suc m)" "hash_valid h"
  shows "unrefs (Suc m) h =
     Return (None, concat (map (node_calls (key_destroy_func h) (value_destroy_func h))
                             (concat (buckets h)))
                   @ [P_free_top_nodes, P_free_hash])"
  using assms
proof (induction m arbitrary: h)
  case 0
  then have "refcount h = 1" by simp
  from polkit_hash_unref_last [OF this "0.prems"(2)] show ?case by simp
next
  case (Suc m)
  let ?g = "h\<lparr>refcount := refcount h - 1\<rparr>"
  from Suc.prems have "1 < refcount h" by simp
  note u = polkit_hash_unref_alive [OF this]
  have "refcount ?g = int (Suc m)" using Suc.prems by simp
  moreover have "hash_valid ?g"
    using Suc.prems by (simp add: hash_valid_def split: pointer.splits)
  ultimately have "unrefs (Suc m) ?g =
     Return (None, concat (map (node_calls (key_destroy_func ?g) (value_destroy_func ?g))
                             (concat (buckets ?g)))
                   @ [P_free_top_nodes, P_free_hash])"
    by (rule Suc.IH)
  with u show ?case by (simp add: buckets_def)
qed

text \<open>
  C5. Take a valid table that holds one reference, and let \<open>N\<close> calls of
  \<open>polkit_hash_ref\<close> on it return. Then each of the first \<open>N\<close> calls of
  \<open>polkit_hash_unref\<close> only lowers the counter: after \<open>m \<le> N\<close> of them the table
  is as it was, with \<open>N + 1 - m\<close> references, and no call has been made, neither to
  a destructor nor to free a node, the bucket array or the table. The call number
  \<open>N + 1\<close> frees the table; the calls it makes are, bucket after bucket and node
  after node, the key destructor on the key if one is set, then the value destructor
  on the value if one is set, then the release of the node, and at the end the
  release of the bucket array and of the table.
\<close>

theorem polkit_hash_unref_final_release:
  assumes "refcount h = 1" and "hash_valid h"
    and "refs N (Pointer h) = Return hash"
  shows "\<exists>hN. hash = Pointer hN \<and>
           (\<forall>m \<le> N. unrefs m hN = Return (Some (h\<lparr>refcount := 1 + int N - int m\<rparr>), [])) \<and>
           unrefs (Suc N) hN =
             Return (None,
               concat (map (node_calls (key_destroy_func h) (value_destroy_func h))
                         (concat (buckets h)))
               @ [P_free_top_nodes, P_free_hash])"
proof -
  let ?hN = "h\<lparr>refcount := 1 + int N\<rparr>"
  from refs_Return [OF assms(3)] assms(1) have hash: "hash = Pointer ?hN"
    by simp
  have "\<forall>m \<le> N. unrefs m ?hN = Return (Some (h\<lparr>refcount := 1 + int N - int m\<rparr>), [])"
  proof (intro allI impI)
    fix m assume "m \<le> N"
    then have "int m < refcount ?hN" by simp
    from unrefs_alive [OF this]
    show "unrefs m ?hN = Return (Some (h\<lparr>refcount := 1 + int N - int m\<rparr>), [])"
      by simp
  qed
  moreover have "refcount ?hN = int (Suc N)" by simp
  moreover have "hash_valid ?hN"
    using assms(2) by (simp add: hash_valid_def split: pointer.splits)
  ultimately show ?thesis using hash unrefs_last [of ?hN N]
    by (simp add: buckets_def)
qed

theorem polkit_hash_unref_final_release_witness:
  "refs (Suc (Suc 0)) (Pointer direct_table) = Return (Pointer (direct_table\<lparr>refcount := 3\<rparr>)) \<and>
   unrefs (Suc (Suc 0)) (direct_table\<lparr>refcount := 3\<rparr>) = Return (Some direct_table, []) \<and>
   unrefs (Suc (Suc (Suc 0))) (direct_table\<lparr>refcount := 3\<rparr>) =
     Return (None,
       [Invoke ''p_free'' (Pointer 1), Invoke ''p_free'' (Pointer 100),
        P_free_node \<lparr>key = Pointer 1, value' = Pointer 100\<rparr>,
        Invoke ''p_free'' (Pointer 12), Invoke ''p_free'' (Pointer 120),
        P_free_node \<lparr>key = Pointer 12, value' = Pointer 120\<rparr>,
        Invoke ''p_free'' (Pointer 3), Invoke ''p_free'' NULL,
        P_free_node \<lparr>key = Pointer 3, value' = NULL\<rparr>,
        P_free_top_nodes, P_free_hash])"
proof -
  let ?t3 = "direct_table\<lparr>refcount := 3\<rparr>"
  have c: "refcount direct_table = 1" by (simp add: direct_table_def)
  have v: "hash_valid direct_table"
    by (simp add: hash_valid_def direct_table_def INT_MAX_def)
  have r: "refs (Suc (Suc 0)) (Pointer direct_table) = Return (Pointer ?t3)"
    by (simp add: polkit_hash_ref_def direct_table_def INT_MAX_def)
  from polkit_hash_unref_final_release [OF c v r]
  have a: "\<forall>m \<le> Suc (Suc 0).
             unrefs m ?t3 = Return (Some (direct_table\<lparr>refcount := 1 + int (Suc (Suc 0)) - int m\<rparr>), [])"
    and l: "unrefs (Suc (Suc (Suc 0))) ?t3 =
             Return (None,
               concat (map (node_calls (key_destroy_func direct_table)
                              (value_destroy_func direct_table))
                         (concat (buckets direct_table)))
               @ [P_free_top_nodes, P_free_hash])"
    by simp_all
  from a have "unrefs (Suc (Suc 0)) ?t3 =
      Return (Some (direct_table\<lparr>refcount := 1 + int (Suc (Suc 0)) - int (Suc (Suc 0))\<rparr>), [])"
    by blast
  then have a2: "unrefs (Suc (Suc 0)) ?t3 = Return (Some direct_table, [])"
    using c by simp
  have "concat (map (node_calls (key_destroy_func direct_table)
                              (value_destroy_func direct_table))
                         (concat (buckets direct_table))) =
       [Invoke ''p_free'' (Pointer 1), Invoke ''p_free'' (Pointer 100),
        P_free_node \<lparr>key = Pointer 1, value' = Pointer 100\<rparr>,
        Invoke ''p_free'' (Pointer 12), Invoke ''p_free'' (Pointer 120),
        P_free_node \<lparr>key = Pointer 12, value' = Pointer 120\<rparr>,
        Invoke ''p_free'' (Pointer 3), Invoke ''p_free'' NULL,
        P_free_node \<lparr>key = Pointer 3, value' = NULL\<rparr>]"
    by (simp add: direct_table_def buckets_def node_calls_def)
  with l r a2 show ?thesis by simp
qed

section \<open>NULL handles\<close>

text \<open>
  C7. \<open>polkit_hash_ref\<close> and \<open>polkit_hash_unref\<close> check their handle and report a
  \<open>NULL\<close> through the contract check. \<open>polkit_hash_insert\<close> and
  \<open>polkit_hash_lookup\<close> make no such check: given \<open>NULL\<close> they dereference it.
\<close>

theorem polkit_hash_null_handle:
  "polkit_hash_ref (NULL :: (string, nat) PolKitHash pointer) = Precondition_failed NULL \<and>
   polkit_hash_unref (NULL :: (string, nat) PolKitHash pointer) = Precondition_failed (None, []) \<and>
   polkit_hash_insert (NULL :: (string, nat) PolKitHash pointer) (Pointer 1) (Pointer 100) True
     = Fault \<and>
   polkit_hash_lookup (NULL :: (string, nat) PolKitHash pointer) (Pointer 1) (Pointer False)
     = Fault"
  by (simp add: polkit_hash_ref_def polkit_hash_unref_def polkit_hash_insert_def
      polkit_hash_lookup_def)

section \<open>Stored NULL values and the found flag\<close>

text \<open>
  C8, as stated, fails when the equality callback does not hold of a key and itself.
  The table below is made by \<open>polkit_hash_new\<close> with the callback
  \<open>compare_as_equal\<close>. The keys 1 and 12 are inserted; the lookup of the key 1
  then finds an entry, so the key is present under the callback; the key 1 is
  inserted again with a \<open>NULL\<close> value, which succeeds; and the lookup of the key 1
  now returns \<open>NULL\<close> with the flag false.
\<close>

theorem polkit_hash_lookup_stored_null_counterexample:
  "polkit_hash_new (Pointer p_direct_hash) (Pointer compare_as_equal) NULL NULL True True
     = Return (Pointer (new_table p_direct_hash compare_as_equal NULL NULL),
               [P_new0_hash True, P_new0_top_nodes True]) \<and>
   inserts (new_table p_direct_hash compare_as_equal NULL NULL)
       [(Pointer 1, Pointer 100, True), (Pointer 12, Pointer 120, True)]
     = Some (table_with p_direct_hash compare_as_equal NULL NULL
               [\<lparr>key = Pointer 12, value' = Pointer 120\<rparr>] []) \<and>
   polkit_hash_lookup
       (Pointer (table_with p_direct_hash compare_as_equal NULL NULL
                   [\<lparr>key = Pointer 12, value' = Pointer 120\<rparr>] []))
       (Pointer 1) (Pointer False)
     = Return (Pointer 120, Pointer True) \<and>
   polkit_hash_insert
       (Pointer (table_with p_direct_hash compare_as_equal NULL NULL
                   [\<lparr>key = Pointer 12, value' = Pointer 120\<rparr>] []))
       (Pointer 1) NULL True
     = Return (True,
               table_with p_direct_hash compare_as_equal NULL NULL
                 [\<lparr>key = Pointer 1, value' = NULL\<rparr>] [], []) \<and>
   polkit_hash_lookup
       (Pointer (table_with p_direct_hash compare_as_equal NULL NULL
                   [\<lparr>key = Pointer 1, value' = NULL\<rparr>] []))
       (Pointer 1) (Pointer True)
     = Return (NULL, Pointer False)"
  by (simp add: table_eval polkit_hash_new_table compare_as_equal_def call_free_func_def)

text \<open>
  C8, amended. Let the key be present in the table, that is let
  \<open>polkit_hash_lookup\<close> find it, and let the key be equal to itself under the
  equality callback. After a successful insertion of that key with a \<open>NULL\<close>
  value, \<open>polkit_hash_lookup\<close> of the key returns \<open>NULL\<close> with the flag true.
  A lookup that does not find its key returns \<open>NULL\<close> with the flag false, so the
  flag tells the two apart.
\<close>

theorem polkit_hash_lookup_stored_null:
  assumes "polkit_hash_lookup (Pointer h) k (Pointer f0) = Return (v0, Pointer True)"
    and "key_equal_func h k k"
    and "polkit_hash_insert (Pointer h) k NULL mem = Return (True, h', cs)"
  shows "polkit_hash_lookup (Pointer h') k (Pointer f) = Return (NULL, Pointer True) \<and>
         (\<forall>h2 k2 v2. polkit_hash_lookup (Pointer h2) k2 (Pointer f) = Return (v2, Pointer False)
            \<longrightarrow> v2 = (NULL :: 'a pointer))"
proof
  from assms(1) obtain tn where tn: "top_nodes h = Pointer tn" and b: "bucket_of h k < length tn"
    and nz: "word_of_int (num_top_nodes h) \<noteq> (0 :: 32 word)"
    and im: "int (bucket_of h k) \<le> INT_MAX"
    and f: "snd (lookup_chain (key_equal_func h) k (tn ! bucket_of h k))"
    by (auto simp: polkit_hash_lookup_Return_iff)
  from lookup_chain_present [OF f] obtain pre node post where
    c: "tn ! bucket_of h k = pre @ node # post"
    and pre: "\<forall>m \<in> set pre. \<not> key_equal_func h k (key m)"
    and node: "key_equal_func h k (key node)"
    by blast
  let ?new = "\<lparr>key = k, value' = NULL\<rparr>"
  have ic: "insert_chain (key_equal_func h) (key_destroy_func h) (value_destroy_func h)
              k NULL mem (tn ! bucket_of h k) =
            (True, pre @ ?new # post,
             call_free_func (key_destroy_func h) (key node) @
             call_free_func (value_destroy_func h) (value' node))"
    unfolding c using pre node by (rule insert_chain_split)
  with assms(3) tn
  have h': "h' = h\<lparr>top_nodes := Pointer (tn[bucket_of h k := pre @ ?new # post])\<rparr>"
    by (auto simp: polkit_hash_insert_Return_iff)
  have "key_equal_func h k (key ?new)" using assms(2) by simp
  with pre have "lookup_chain (key_equal_func h) k (pre @ ?new # post) = (value' ?new, True)"
    by (rule lookup_chain_split)
  then show "polkit_hash_lookup (Pointer h') k (Pointer f) = Return (NULL, Pointer True)"
    using h' b nz im by (simp add: polkit_hash_lookup_Return_iff bucket_of_def)
next
  show "\<forall>h2 k2 v2. polkit_hash_lookup (Pointer h2) k2 (Pointer f) = Return (v2, Pointer False)
            \<longrightarrow> v2 = (NULL :: 'a pointer)"
    by (auto simp: polkit_hash_lookup_Return_iff lookup_chain_find split: option.splits)
qed

theorem polkit_hash_lookup_stored_null_witness:
  "polkit_hash_lookup (Pointer direct_table) (Pointer 12) (Pointer False)
     = Return (Pointer 120, Pointer True) \<and>
   polkit_hash_insert (Pointer direct_table) (Pointer 12) NULL False =
     Return (True,
       direct_table\<lparr>top_nodes := Pointer
         [[],
          [\<lparr>key = Pointer 1, value' = Pointer 100\<rparr>, \<lparr>key = Pointer 12, value' = NULL\<rparr>],
          [],
          [\<lparr>key = Pointer 3, value' = NULL\<rparr>],
          [], [], [], [], [], [], []]\<rparr>,
       [Invoke ''p_free'' (Pointer 12), Invoke ''p_free'' (Pointer 120)]) \<and>
   polkit_hash_lookup
     (Pointer (direct_table\<lparr>top_nodes := Pointer
         [[],
          [\<lparr>key = Pointer 1, value' = Pointer 100\<rparr>, \<lparr>key = Pointer 12, value' = NULL\<rparr>],
          [],
          [\<lparr>key = Pointer 3, value' = NULL\<rparr>],
          [], [], [], [], [], [], []]\<rparr>))
     (Pointer 12) (Pointer False)
     = Return (NULL, Pointer True) \<and>
   polkit_hash_lookup (Pointer direct_table) (Pointer 23) (Pointer True)
     = Return (NULL, Pointer False)"
proof -
  let ?tab = "direct_table\<lparr>top_nodes := Pointer
         [[],
          [\<lparr>key = Pointer 1, value' = Pointer 100\<rparr>, \<lparr>key = Pointer 12, value' = NULL\<rparr>],
          [],
          [\<lparr>key = Pointer 3, value' = NULL\<rparr>],
          [], [], [], [], [], [], []]\<rparr>"
  have a: "polkit_hash_lookup (Pointer direct_table) (Pointer 12) (Pointer False)
             = Return (Pointer 120, Pointer True)"
    by (simp add: table_eval p_direct_equal_def)
  have e: "key_equal_func direct_table (Pointer 12) (Pointer 12)"
    by (simp add: direct_table_def p_direct_equal_def)
  have i: "polkit_hash_insert (Pointer direct_table) (Pointer 12) NULL False =
     Return (True, ?tab, [Invoke ''p_free'' (Pointer 12), Invoke ''p_free'' (Pointer 120)])"
    by (simp add: table_eval p_direct_equal_def call_free_func_def)
  have n: "polkit_hash_lookup (Pointer direct_table) (Pointer 23) (Pointer True)
             = Return (NULL, Pointer False)"
    by (simp add: table_eval p_direct_equal_def)
  from polkit_hash_lookup_stored_null [OF a e i, of False]
  have "polkit_hash_lookup (Pointer ?tab) (Pointer 12) (Pointer False)
          = Return (NULL, Pointer True)"
    by blast
  with a i n show ?thesis by simp
qed

text \<open>
  C9. On a valid table, \<open>polkit_hash_lookup\<close> called with a \<open>NULL\<close> flag pointer
  returns the value of the first node of the key's bucket whose key equals the key,
  or \<open>NULL\<close> when there is none, and writes no flag; called with a flag pointer
  it returns the same value, and the flag tells whether there was such a node.
\<close>

theorem polkit_hash_lookup_found_optional:
  assumes "hash_valid h"
  shows "polkit_hash_lookup (Pointer h) k NULL =
           Return (case find (\<lambda>n. key_equal_func h k (key n)) (buckets h ! bucket_of h k) of
                     None \<Rightarrow> NULL | Some n \<Rightarrow> value' n, NULL) \<and>
         polkit_hash_lookup (Pointer h) k (Pointer f) =
           Return (case find (\<lambda>n. key_equal_func h k (key n)) (buckets h ! bucket_of h k) of
                     None \<Rightarrow> NULL | Some n \<Rightarrow> value' n,
                   Pointer (find (\<lambda>n. key_equal_func h k (key n)) (buckets h ! bucket_of h k)
                              \<noteq> None))"
  by (simp add: polkit_hash_lookup_valid [OF assms] lookup_chain_find split: option.splits)

theorem polkit_hash_lookup_found_optional_witness:
  "hash_valid direct_table \<and>
   polkit_hash_lookup (Pointer direct_table) (Pointer 12) NULL = Return (Pointer 120, NULL) \<and>
   polkit_hash_lookup (Pointer direct_table) (Pointer 12) (Pointer False)
     = Return (Pointer 120, Pointer True)"
proof -
  have v: "hash_valid direct_table"
    by (simp add: hash_valid_def direct_table_def INT_MAX_def)
  have b: "bucket_of direct_table (Pointer 12) = 1"
    by (simp add: table_eval)
  have f: "find (\<lambda>n. key_equal_func direct_table (Pointer 12) (key n)) (buckets direct_table ! 1)
             = Some \<lparr>key = Pointer 12, value' = Pointer 120\<rparr>"
    by (simp add: buckets_def direct_table_def p_direct_equal_def)
  from polkit_hash_lookup_found_optional [OF v, of "Pointer 12" False] v
  show ?thesis unfolding b f by simp
qed

section \<open>The action identifier\<close>

text \<open>
  What the two accessors do when the new identifier does not lie in the memory of
  the stored one: \<open>libpolkit_action_get_action_id\<close> returns \<open>FALSE\<close> and leaves the
  place for the result as it is when the action holds no identifier, and returns
  \<open>TRUE\<close> with the stored identifier in the place when it holds one;
  \<open>libpolkit_action_set_action_id\<close> frees the stored identifier, if any, and stores
  a copy of the new one, \<open>NULL\<close> for \<open>NULL\<close>.
\<close>

lemma libpolkit_action_get_action_id_result:
  "libpolkit_action_get_action_id (Pointer a) (Pointer out) =
     (case action_id a of
        NULL \<Rightarrow> Return (False, Pointer out)
      | Pointer s \<Rightarrow> Return (True, Pointer (Pointer s)))"
  by (simp add: libpolkit_action_get_action_id_def split: pointer.splits)

lemma libpolkit_action_set_action_id_NULL:
  "libpolkit_action_set_action_id (Pointer a) NULL copy =
     Return (Pointer (a\<lparr>action_id := NULL\<rparr>),
             case action_id a of NULL \<Rightarrow> [] | Pointer old \<Rightarrow> [G_free old])"
  by (simp add: libpolkit_action_set_action_id_def g_strdup_def split: pointer.splits)

lemma libpolkit_action_set_action_id_apart:
  assumes "\<forall>old. action_id a = Pointer old \<longrightarrow> \<not> in_block p old"
  shows "libpolkit_action_set_action_id (Pointer a) (Pointer (p, s)) copy =
     Return (Pointer (a\<lparr>action_id := Pointer (copy, s)\<rparr>),
             case action_id a of NULL \<Rightarrow> [] | Pointer old \<Rightarrow> [G_free old])"
  using assms
  by (simp add: libpolkit_action_set_action_id_def g_strdup_def split: pointer.splits)

text \<open>
  C10. The claim that \<open>libpolkit_action_set_action_id\<close> always replaces the stored
  identifier fails on the code for the pointer that
  \<open>libpolkit_action_get_action_id\<close> hands out: an action that holds an identifier
  gives the caller the stored pointer itself, and \<open>libpolkit_action_set_action_id\<close>
  called with that pointer frees the string and then reads it to make the copy.
\<close>

theorem libpolkit_action_set_action_id_stored_pointer:
  "libpolkit_action_get_action_id (Pointer (a\<lparr>action_id := Pointer (p, s)\<rparr>)) (Pointer out) =
     Return (True, Pointer (Pointer (p, s))) \<and>
   libpolkit_action_set_action_id (Pointer (a\<lparr>action_id := Pointer (p, s)\<rparr>)) (Pointer (p, s)) copy =
     Fault"
  by (simp add: libpolkit_action_get_action_id_def libpolkit_action_set_action_id_def
      g_strdup_def in_block_def)

end
